theory Spec2Isabelle
  imports Complex_Main "HOL-Library.Multiset" "HOL-Library.Log_Nat"
begin

section \<open>The domain model (include/models.hpp)\<close>

text \<open>
  The C++ classes hold one another through \<open>std::shared_ptr\<close>: a \<open>Job\<close> holds a vector of
  pointers to \<open>Operation\<close> objects, a \<open>Machine\<close> holds pointers to the very same objects, and a
  \<open>ProblemInstance\<close> holds vectors of pointers to \<open>Job\<close> and \<open>Machine\<close> objects. The
  embedding keeps that sharing: objects live in a store, addressed by natural numbers, and the
  vectors hold addresses. Every pointer stored in a vector is taken to be non-null (the
  constructors of the repository, \<open>createJobs\<close>, \<open>createMachines\<close> and \<open>addOperation\<close>,
  never store a null one); the pointers that the code tests against null (the problem handed
  to \<open>solve\<close>, the results of \<open>getJob\<close> and \<open>getMachine\<close>) are options.

  A C++ \<open>int\<close> is a 32-bit two's complement integer. Its values are modelled by the integers
  from -2147483648 to 2147483647, and every sum the code computes in \<open>int\<close> is reduced to
  that range by \<open>int32\<close>: the sum wraps around, as the machine addition does (ISO C++ leaves
  the overflow of a signed sum undefined; the wrapped sum is what the compiled program
  computes).

  A \<open>double\<close> is an IEEE 754 binary64 number, modelled by the real number it stands for.
  Converting to \<open>double\<close> and dividing two of them round to the nearest such number, ties to
  the one with the even significand: \<open>toDouble\<close>. The only \<open>double\<close> of the program is
  \<open>avgFlowTime\<close>, the quotient of an \<open>int\<close> by a vector's size; it is far from the range
  where a \<open>double\<close> overflows, so infinities and NaN are not modelled.
\<close>

definition int32 :: "int \<Rightarrow> int" where
  "int32 x = (x + 2147483648) mod 4294967296 - 2147483648"

text \<open>
  Rounding to \<open>double\<close>. \<open>pow2 e\<close> is 2 to the power \<open>e\<close>; \<open>binade x\<close> is the exponent \<open>e\<close>
  with \<open>pow2 e \<le> \<bar>x\<bar> < pow2 (e + 1)\<close>, for \<open>x\<close> other than 0, read off the bit length of
  the integer part of \<open>\<bar>x\<bar>\<close> or of its inverse. A binary64 number in the binade \<open>e\<close> is a
  multiple of \<open>pow2 (e - 52)\<close> (53 significant bits), and of \<open>pow2 (- 1074)\<close> in the
  subnormal range. \<open>toDouble\<close> rounds to the nearest multiple, a tie to the even one.
\<close>

definition pow2 :: "int \<Rightarrow> real" where
  "pow2 e = (if 0 \<le> e then 2 ^ nat e else 1 / 2 ^ nat (- e))"

definition binade :: "real \<Rightarrow> int" where
  "binade x = (if 1 \<le> \<bar>x\<bar> then bitlen \<lfloor>\<bar>x\<bar>\<rfloor> - 1 else - bitlen (\<lceil>1 / \<bar>x\<bar>\<rceil> - 1))"

definition roundHalfEven :: "real \<Rightarrow> int" where
  "roundHalfEven x =
     (let f = \<lfloor>x\<rfloor>
      in if x - of_int f < 1 / 2 then f
         else if 1 / 2 < x - of_int f then f + 1
         else if even f then f else f + 1)"

definition toDouble :: "real \<Rightarrow> real" where
  "toDouble x =
     (if x = 0 then 0
      else (let q = max (binade x - 52) (- 1074)
            in of_int (roundHalfEven (x / pow2 q)) * pow2 q))"

record Operation =
  jobId :: int
  machineId :: int
  processingTime :: int
  operationId :: int
  startTime :: int
  endTime :: int

definition newOperation :: "int \<Rightarrow> int \<Rightarrow> int \<Rightarrow> int \<Rightarrow> Operation" where
  "newOperation jid mid pt oid =
     \<lparr>Operation.jobId = jid, Operation.machineId = mid, processingTime = pt,
      operationId = oid, startTime = 0, endTime = 0\<rparr>"

definition getDuration :: "Operation \<Rightarrow> int" where
  "getDuration op = processingTime op"

definition setScheduled :: "int \<Rightarrow> int \<Rightarrow> Operation \<Rightarrow> Operation" where
  "setScheduled start end op = op\<lparr>startTime := start, endTime := end\<rparr>"

definition isScheduled :: "Operation \<Rightarrow> bool" where
  "isScheduled op \<longleftrightarrow> endTime op > startTime op"

record Job =
  jobId :: int
  operations :: "nat list"

record Machine =
  machineId :: int
  scheduledOperations :: "nat list"
  availableTime :: int

definition reset :: "Machine \<Rightarrow> Machine" where
  "reset m = m\<lparr>scheduledOperations := [], availableTime := 0\<rparr>"

record ProblemInstance =
  jobs :: "nat list"
  machines :: "nat list"
  numJobs :: int
  numMachines :: int

definition getJob :: "ProblemInstance \<Rightarrow> int \<Rightarrow> nat option" where
  "getJob p jid =
     (if jid \<ge> 0 \<and> nat jid < length (jobs p) then Some (jobs p ! nat jid) else None)"

definition getMachine :: "ProblemInstance \<Rightarrow> int \<Rightarrow> nat option" where
  "getMachine p mid =
     (if mid \<ge> 0 \<and> nat mid < length (machines p) then Some (machines p ! nat mid) else None)"

record ScheduleResult =
  problem :: ProblemInstance
  scheduledJobs :: "nat list"
  makespan :: int
  totalCompletionTime :: int
  avgFlowTime :: real

definition newProblemInstance :: ProblemInstance where
  "newProblemInstance = \<lparr>jobs = [], machines = [], numJobs = 0, numMachines = 0\<rparr>"

definition newScheduleResult :: ScheduleResult where
  "newScheduleResult =
     \<lparr>problem = newProblemInstance, scheduledJobs = [], makespan = 0,
      totalCompletionTime = 0, avgFlowTime = 0\<rparr>"

text \<open>
  The store: the objects behind the shared pointers, the number of \<open>ScheduleResult\<close> objects
  allocated so far (the next free address for \<open>std::make_shared<ScheduleResult>\<close>), and the
  lines written to \<open>std::cerr\<close>.
\<close>

record Store =
  opObjs :: "nat \<Rightarrow> Operation"
  jobObjs :: "nat \<Rightarrow> Job"
  machineObjs :: "nat \<Rightarrow> Machine"
  resultObjs :: "nat \<Rightarrow> ScheduleResult"
  resultCount :: nat
  cerr :: "string list"

text \<open>\<open>Machine::scheduleOperation\<close>: set the operation's times, append it to the machine's
  list, advance \<open>availableTime\<close>.\<close>

definition scheduleOperation :: "nat \<Rightarrow> nat \<Rightarrow> int \<Rightarrow> Store \<Rightarrow> Store" where
  "scheduleOperation m a start s =
     (let op' = setScheduled start (int32 (start + getDuration (opObjs s a))) (opObjs s a);
          mo = machineObjs s m
      in s\<lparr>opObjs := (opObjs s)(a := op'),
            machineObjs := (machineObjs s)
              (m := mo\<lparr>scheduledOperations := scheduledOperations mo @ [a],
                       availableTime := int32 (start + getDuration op')\<rparr>)\<rparr>)"

section \<open>The dispatch scheduler (src/solver.cpp)\<close>

text \<open>What the functions print on \<open>std::cout\<close> is left out of the model; the warning that
  \<open>scheduleFIFO\<close> writes to \<open>std::cerr\<close> is kept. The two reset loops that open every
  schedule pass come first.\<close>

definition resetMachines :: "ProblemInstance \<Rightarrow> Store \<Rightarrow> Store" where
  "resetMachines p s =
     fold (\<lambda>m s. s\<lparr>machineObjs := (machineObjs s)(m := reset (machineObjs s m))\<rparr>)
       (machines p) s"

definition clearOperation :: "nat \<Rightarrow> Store \<Rightarrow> Store" where
  "clearOperation a s = s\<lparr>opObjs := (opObjs s)(a := (opObjs s a)\<lparr>startTime := 0, endTime := 0\<rparr>)\<rparr>"

definition clearOperations :: "ProblemInstance \<Rightarrow> Store \<Rightarrow> Store" where
  "clearOperations p s =
     fold (\<lambda>j s. fold clearOperation (operations (jobObjs s j)) s) (jobs p) s"

text \<open>The loop with \<open>break\<close> that looks for an unscheduled sibling with a smaller
  \<open>operationId\<close>.\<close>

fun allPrevOpsCompleted :: "Store \<Rightarrow> Operation \<Rightarrow> nat list \<Rightarrow> bool" where
  "allPrevOpsCompleted s op [] = True"
| "allPrevOpsCompleted s op (b # bs) =
     (if operationId (opObjs s b) < operationId op \<and> \<not> isScheduled (opObjs s b) then False
      else allPrevOpsCompleted s op bs)"

text \<open>The loop that computes \<open>jobReadyTime\<close>, started at 0.\<close>

definition jobReadyTime :: "Store \<Rightarrow> Operation \<Rightarrow> nat list \<Rightarrow> int" where
  "jobReadyTime s op bs =
     fold (\<lambda>b t. if operationId (opObjs s b) < operationId op then max t (endTime (opObjs s b))
                 else t) bs 0"

text \<open>\<open>Solver::scheduleFIFO\<close>: the body of the innermost loop, for operation \<open>a\<close> of job
  \<open>j\<close>; the state is the store and the flag \<open>operationScheduled\<close>.\<close>

definition fifoVisit :: "ProblemInstance \<Rightarrow> nat \<Rightarrow> nat \<Rightarrow> Store \<times> bool \<Rightarrow> Store \<times> bool" where
  "fifoVisit p j a = (\<lambda>(s, operationScheduled).
     if \<not> isScheduled (opObjs s a) then
       (case getMachine p (Operation.machineId (opObjs s a)) of
          None \<Rightarrow> (s, operationScheduled)
        | Some m \<Rightarrow>
            if allPrevOpsCompleted s (opObjs s a) (operations (jobObjs s j)) then
              (let start = max (availableTime (machineObjs s m))
                               (jobReadyTime s (opObjs s a) (operations (jobObjs s j)))
               in (scheduleOperation m a start s, True))
            else (s, operationScheduled))
     else (s, operationScheduled))"

definition fifoJob :: "ProblemInstance \<Rightarrow> nat \<Rightarrow> Store \<times> bool \<Rightarrow> Store \<times> bool" where
  "fifoJob p j st = fold (fifoVisit p j) (operations (jobObjs (fst st) j)) st"

definition fifoRound :: "ProblemInstance \<Rightarrow> Store \<Rightarrow> Store \<times> bool" where
  "fifoRound p s = fold (fifoJob p) (jobs p) (s, False)"

function fifoLoop :: "ProblemInstance \<Rightarrow> Store \<times> bool \<times> int \<Rightarrow> Store \<times> bool \<times> int" where
  "fifoLoop p (s, operationScheduled, iteration) =
     (if operationScheduled \<and> iteration < 1000 then
        fifoLoop p (fst (fifoRound p s), snd (fifoRound p s), iteration + 1)
      else (s, operationScheduled, iteration))"
  by pat_completeness auto
termination
  by (relation "measure (\<lambda>(p, s, f, i). nat (1000 - i))") auto

definition scheduleFIFO :: "ProblemInstance \<Rightarrow> Store \<Rightarrow> Store" where
  "scheduleFIFO p s =
     (case fifoLoop p (clearOperations p (resetMachines p s), True, 0) of
        (s', operationScheduled, iteration) \<Rightarrow>
          if iteration \<ge> 1000
          then s'\<lparr>cerr := cerr s' @ [''Warning: Scheduling may not have completed properly'']\<rparr>
          else s')"

text \<open>
  \<open>Solver::scheduleWithPriority\<close>. The ready operations are collected first, with the store
  untouched; \<open>std::sort\<close> orders them; they are then committed in that order. \<open>std::sort\<close>
  belongs to the C++ standard library, not to the repository, so the sorting function is a
  parameter \<open>sortf\<close> of the model; what the standard promises of it is \<open>std_sort\<close> below.
\<close>

definition readyOperations :: "ProblemInstance \<Rightarrow> Store \<Rightarrow> nat list" where
  "readyOperations p s =
     concat (map (\<lambda>j. filter (\<lambda>a. \<not> isScheduled (opObjs s a) \<and>
                                   allPrevOpsCompleted s (opObjs s a) (operations (jobObjs s j)))
                        (operations (jobObjs s j))) (jobs p))"

definition priorityVisit :: "ProblemInstance \<Rightarrow> nat \<Rightarrow> Store \<times> bool \<Rightarrow> Store \<times> bool" where
  "priorityVisit p a = (\<lambda>(s, operationScheduled).
     if \<not> isScheduled (opObjs s a) then
       (case getMachine p (Operation.machineId (opObjs s a)) of
          None \<Rightarrow> (s, operationScheduled)
        | Some m \<Rightarrow>
            (let jrt = (case getJob p (Operation.jobId (opObjs s a)) of
                          None \<Rightarrow> 0
                        | Some j \<Rightarrow> jobReadyTime s (opObjs s a) (operations (jobObjs s j)));
                 start = max (availableTime (machineObjs s m)) jrt
             in (scheduleOperation m a start s, True)))
     else (s, operationScheduled))"

type_synonym sorter = "(nat \<Rightarrow> nat \<Rightarrow> bool) \<Rightarrow> nat list \<Rightarrow> nat list"

definition sortedReady ::
  "sorter \<Rightarrow> (Operation \<Rightarrow> Operation \<Rightarrow> bool) \<Rightarrow> ProblemInstance \<Rightarrow> Store \<Rightarrow> nat list" where
  "sortedReady sortf compare p s =
     sortf (\<lambda>a b. compare (opObjs s a) (opObjs s b)) (readyOperations p s)"

definition priorityRound ::
  "sorter \<Rightarrow> (Operation \<Rightarrow> Operation \<Rightarrow> bool) \<Rightarrow> ProblemInstance \<Rightarrow> Store \<Rightarrow> Store \<times> bool" where
  "priorityRound sortf compare p s =
     fold (priorityVisit p) (sortedReady sortf compare p s) (s, False)"

function priorityLoop ::
  "sorter \<Rightarrow> (Operation \<Rightarrow> Operation \<Rightarrow> bool) \<Rightarrow> ProblemInstance \<Rightarrow>
   Store \<times> bool \<times> int \<Rightarrow> Store \<times> bool \<times> int" where
  "priorityLoop sortf compare p (s, operationScheduled, iteration) =
     (if operationScheduled \<and> iteration < 1000 then
        priorityLoop sortf compare p
          (fst (priorityRound sortf compare p s), snd (priorityRound sortf compare p s),
           iteration + 1)
      else (s, operationScheduled, iteration))"
  by pat_completeness auto
termination
  by (relation "measure (\<lambda>(sortf, c, p, s, f, i). nat (1000 - i))") auto

definition scheduleWithPriority ::
  "sorter \<Rightarrow> ProblemInstance \<Rightarrow> (Operation \<Rightarrow> Operation \<Rightarrow> bool) \<Rightarrow> Store \<Rightarrow> Store" where
  "scheduleWithPriority sortf p compare s = fst (priorityLoop sortf compare p (s, True, 0))"

definition sptCompare :: "Operation \<Rightarrow> Operation \<Rightarrow> bool" where
  "sptCompare a b \<longleftrightarrow> processingTime a < processingTime b"

definition lptCompare :: "Operation \<Rightarrow> Operation \<Rightarrow> bool" where
  "lptCompare a b \<longleftrightarrow> processingTime a > processingTime b"

definition scheduleSPT :: "sorter \<Rightarrow> ProblemInstance \<Rightarrow> Store \<Rightarrow> Store" where
  "scheduleSPT sortf p s =
     scheduleWithPriority sortf p sptCompare (clearOperations p (resetMachines p s))"

definition scheduleLPT :: "sorter \<Rightarrow> ProblemInstance \<Rightarrow> Store \<Rightarrow> Store" where
  "scheduleLPT sortf p s =
     scheduleWithPriority sortf p lptCompare (clearOperations p (resetMachines p s))"

text \<open>
  \<open>enum class SchedulingAlgorithm { FIFO, SPT, LPT }\<close> is a scoped enumeration over \<open>int\<close>:
  its values are the values of \<open>int\<close> (a \<open>static_cast\<close> yields any of them), and three of
  them have names. The \<open>switch\<close> of \<open>Solver::solve\<close> dispatches on the three names and
  throws in its \<open>default\<close> branch.
\<close>

datatype SchedulingAlgorithm = SchedulingAlgorithm int

definition FIFO :: SchedulingAlgorithm where
  "FIFO = SchedulingAlgorithm 0"

definition SPT :: SchedulingAlgorithm where
  "SPT = SchedulingAlgorithm 1"

definition LPT :: SchedulingAlgorithm where
  "LPT = SchedulingAlgorithm 2"

datatype error = runtime_error string

definition schedule ::
  "sorter \<Rightarrow> SchedulingAlgorithm \<Rightarrow> ProblemInstance \<Rightarrow> Store \<Rightarrow> error + Store" where
  "schedule sortf algorithm p s =
     (if algorithm = FIFO then Inr (scheduleFIFO p s)
      else if algorithm = SPT then Inr (scheduleSPT sortf p s)
      else if algorithm = LPT then Inr (scheduleLPT sortf p s)
      else Inl (runtime_error ''Unknown algorithm''))"

section \<open>Metrics and \<open>Solver::solve\<close>\<close>

text \<open>\<open>ScheduleResult::calculateMetrics\<close>, a method of the result object at address \<open>r\<close>: the
  inner loop over one job's operations, the outer loop over the jobs that carries
  \<open>makespan\<close> and \<open>totalCompletionTime\<close>, and the final division, of
  \<open>static_cast<double>(totalCompletionTime)\<close> by \<open>problem.jobs.size()\<close> converted to
  \<open>double\<close>.\<close>

definition jobCompletionTime :: "Store \<Rightarrow> nat list \<Rightarrow> int" where
  "jobCompletionTime s as =
     fold (\<lambda>a t. if isScheduled (opObjs s a) then max t (endTime (opObjs s a)) else t) as 0"

definition metricsLoop :: "Store \<Rightarrow> nat list \<Rightarrow> int \<times> int" where
  "metricsLoop s js =
     fold (\<lambda>j (mk, total).
             (let jct = jobCompletionTime s (operations (jobObjs s j))
              in (max mk jct, int32 (total + jct)))) js (0, 0)"

definition calculateMetrics :: "nat \<Rightarrow> Store \<Rightarrow> Store" where
  "calculateMetrics r s =
     (let res = resultObjs s r;
          js = jobs (problem res);
          mk = fst (metricsLoop s js);
          total = snd (metricsLoop s js);
          avg = (if js = [] then 0
                 else toDouble (toDouble (real_of_int total) / toDouble (real (length js))))
      in s\<lparr>resultObjs := (resultObjs s)
             (r := res\<lparr>makespan := mk, totalCompletionTime := total, avgFlowTime := avg\<rparr>)\<rparr>)"

text \<open>
  \<open>Solver::solve\<close>. The argument is the \<open>shared_ptr<ProblemInstance>\<close>: \<open>None\<close> is the null
  pointer, \<open>Some p\<close> the instance it points to (solve never writes to the instance's own
  vectors and counters, only to the objects they point to). The result is the thrown
  \<open>std::runtime_error\<close> or the address of the new \<open>ScheduleResult\<close>, which
  \<open>std::make_shared<ScheduleResult>()\<close> puts at the next free address (\<open>withNewResult\<close>). When the \<open>switch\<close>
  throws, the exception leaves \<open>solve\<close> before any scheduling; the local pointer \<open>result\<close>
  goes out of scope and the object just made is destroyed, so the store is the one before
  the call. The assignment \<open>result->problem = *problem\<close> copies the two vectors of pointers
  and the two counters.
\<close>

definition withNewResult :: "Store \<Rightarrow> Store" where
  "withNewResult s =
     s\<lparr>resultObjs := (resultObjs s)(resultCount s := newScheduleResult),
       resultCount := Suc (resultCount s)\<rparr>"

definition solve ::
  "sorter \<Rightarrow> SchedulingAlgorithm \<Rightarrow> ProblemInstance option \<Rightarrow> Store \<Rightarrow> (error + nat) \<times> Store" where
  "solve sortf algorithm problem_ptr s =
     (case problem_ptr of
        None \<Rightarrow> (Inl (runtime_error ''Problem instance is null''), s)
      | Some p \<Rightarrow>
          (let r = resultCount s;
               s1 = withNewResult s
           in case schedule sortf algorithm p s1 of
                Inl e \<Rightarrow> (Inl e, s)
              | Inr s2 \<Rightarrow>
                  (let s3 = s2\<lparr>resultObjs :=
                                (resultObjs s2)(r := (resultObjs s2 r)\<lparr>problem := p\<rparr>)\<rparr>
                   in (Inr r, calculateMetrics r s3))))"

section \<open>What the C++ standard promises of \<open>std::sort\<close>\<close>

text \<open>
  For a comparator that is a strict weak ordering, \<open>std::sort\<close> returns a permutation of its
  input in which no element is followed by one that the comparator puts strictly before it.
  The standard promises no order among equivalent elements (that is \<open>std::stable_sort\<close>).
\<close>

definition strict_weak_order :: "(nat \<Rightarrow> nat \<Rightarrow> bool) \<Rightarrow> bool" where
  "strict_weak_order cmp \<longleftrightarrow>
     (\<forall>a. \<not> cmp a a) \<and>
     (\<forall>a b c. cmp a b \<and> cmp b c \<longrightarrow> cmp a c) \<and>
     (\<forall>a b c. \<not> cmp a b \<and> \<not> cmp b a \<and> \<not> cmp b c \<and> \<not> cmp c b \<longrightarrow> \<not> cmp a c \<and> \<not> cmp c a)"

definition std_sort :: "sorter \<Rightarrow> bool" where
  "std_sort sortf \<longleftrightarrow>
     (\<forall>cmp xs. strict_weak_order cmp \<longrightarrow>
        mset (sortf cmp xs) = mset xs \<and> sorted_wrt (\<lambda>a b. \<not> cmp b a) (sortf cmp xs))"

text \<open>Two sorting functions that keep the promise: insertion sort, which is stable, and
  insertion sort of the reversed input, which puts equivalent elements in reverse order.\<close>

fun stableInsert :: "(nat \<Rightarrow> nat \<Rightarrow> bool) \<Rightarrow> nat \<Rightarrow> nat list \<Rightarrow> nat list" where
  "stableInsert cmp x [] = [x]"
| "stableInsert cmp x (y # ys) = (if cmp y x then y # stableInsert cmp x ys else x # y # ys)"

definition insertionSort :: sorter where
  "insertionSort cmp xs = foldr (stableInsert cmp) xs []"

definition reversingSort :: sorter where
  "reversingSort cmp xs = insertionSort cmp (rev xs)"

section \<open>Well-formedness conditions used by the theorems\<close>

text \<open>The operations of job \<open>j\<close>, and the conditions on a problem that the theorems name:
  no \<open>Operation\<close> object is held by two different \<open>Job\<close> objects; every operation carries as
  \<open>jobId\<close> the position of its job in the problem's vector (what \<open>ProblemInstance::getJob\<close>
  indexes by); every operation's \<open>machineId\<close> is a valid index; every duration is positive.\<close>

definition opsOf :: "Store \<Rightarrow> nat \<Rightarrow> nat list" where
  "opsOf s j = operations (jobObjs s j)"

definition opsNotShared :: "ProblemInstance \<Rightarrow> Store \<Rightarrow> bool" where
  "opsNotShared p s \<longleftrightarrow>
     (\<forall>j \<in> set (jobs p). \<forall>k \<in> set (jobs p). \<forall>a \<in> set (opsOf s j). a \<in> set (opsOf s k) \<longrightarrow> j = k)"

definition jobIdsConsistent :: "ProblemInstance \<Rightarrow> Store \<Rightarrow> bool" where
  "jobIdsConsistent p s \<longleftrightarrow>
     (\<forall>i < length (jobs p). \<forall>a \<in> set (opsOf s (jobs p ! i)).
        Operation.jobId (opObjs s a) = int i)"

definition machineIdsValid :: "ProblemInstance \<Rightarrow> Store \<Rightarrow> bool" where
  "machineIdsValid p s \<longleftrightarrow>
     (\<forall>j \<in> set (jobs p). \<forall>a \<in> set (opsOf s j).
        0 \<le> Operation.machineId (opObjs s a) \<and>
        nat (Operation.machineId (opObjs s a)) < length (machines p))"

definition durationsPositive :: "ProblemInstance \<Rightarrow> Store \<Rightarrow> bool" where
  "durationsPositive p s \<longleftrightarrow>
     (\<forall>j \<in> set (jobs p). \<forall>a \<in> set (opsOf s j). 0 < processingTime (opObjs s a))"

definition operationIdsDistinct :: "ProblemInstance \<Rightarrow> Store \<Rightarrow> bool" where
  "operationIdsDistinct p s \<longleftrightarrow>
     (\<forall>j \<in> set (jobs p). distinct (map (\<lambda>a. operationId (opObjs s a)) (opsOf s j)))"

section \<open>Specification-side notions\<close>

text \<open>What the claims speak of. The end times of the scheduled operations in a list of
  operations, all operations of a problem, and two readings of "the maximum end time":
  \<open>maxOr0\<close> is the maximum of the list and 0 for the empty list; \<open>maxWith0\<close> is the
  maximum of the list and 0, which is what a loop \<open>t = max(t, e)\<close> started at 0 computes.\<close>

definition scheduledEndTimes :: "Store \<Rightarrow> nat list \<Rightarrow> int list" where
  "scheduledEndTimes s as =
     map (\<lambda>a. endTime (opObjs s a)) (filter (\<lambda>a. isScheduled (opObjs s a)) as)"

definition allOps :: "Store \<Rightarrow> ProblemInstance \<Rightarrow> nat list" where
  "allOps s p = concat (map (opsOf s) (jobs p))"

definition maxOr0 :: "int list \<Rightarrow> int" where
  "maxOr0 es = (if es = [] then 0 else Max (set es))"

definition maxWith0 :: "int list \<Rightarrow> int" where
  "maxWith0 es = Max (set (0 # es))"

text \<open>Every operation of the problem satisfies \<open>isScheduled\<close>.\<close>

definition allScheduled :: "ProblemInstance \<Rightarrow> Store \<Rightarrow> bool" where
  "allScheduled p s \<longleftrightarrow> (\<forall>j \<in> set (jobs p). \<forall>a \<in> set (opsOf s j). isScheduled (opObjs s a))"

section \<open>Invariants of the schedule pass\<close>

text \<open>
  The fields of an operation that the scheduler never writes, and two relations between
  stores: \<open>sameShape\<close> (only start and end times and the machines changed) and \<open>evolves\<close>
  (moreover an operation that was scheduled is untouched). The schedule loops only ever
  write to an operation that is not scheduled, so every store they reach evolves from the
  store left by the two reset loops.
\<close>

definition sameStatic :: "Operation \<Rightarrow> Operation \<Rightarrow> bool" where
  "sameStatic x y \<longleftrightarrow>
     Operation.jobId x = Operation.jobId y \<and> Operation.machineId x = Operation.machineId y \<and>
     processingTime x = processingTime y \<and> operationId x = operationId y"

definition sameShape :: "Store \<Rightarrow> Store \<Rightarrow> bool" where
  "sameShape s s' \<longleftrightarrow>
     jobObjs s' = jobObjs s \<and> resultObjs s' = resultObjs s \<and> resultCount s' = resultCount s \<and>
     cerr s' = cerr s \<and> (\<forall>a. sameStatic (opObjs s a) (opObjs s' a))"

definition evolves :: "Store \<Rightarrow> Store \<Rightarrow> bool" where
  "evolves s s' \<longleftrightarrow>
     sameShape s s' \<and> (\<forall>a. isScheduled (opObjs s a) \<longrightarrow> opObjs s' a = opObjs s a)"

text \<open>The precedence invariant: within a job, an operation that is scheduled has all its
  siblings of smaller \<open>operationId\<close> scheduled, and they end before it starts.\<close>

definition precedenceInv :: "ProblemInstance \<Rightarrow> Store \<Rightarrow> bool" where
  "precedenceInv p s \<longleftrightarrow>
     (\<forall>j \<in> set (jobs p). \<forall>a \<in> set (opsOf s j). \<forall>b \<in> set (opsOf s j).
        operationId (opObjs s a) < operationId (opObjs s b) \<and> isScheduled (opObjs s b) \<longrightarrow>
        isScheduled (opObjs s a) \<and> endTime (opObjs s a) \<le> startTime (opObjs s b))"

text \<open>The machine invariant: the operations in a machine's list are scheduled, each ends
  before every later one starts, and \<open>availableTime\<close> is the end of the last one.\<close>

definition machineInv :: "ProblemInstance \<Rightarrow> Store \<Rightarrow> bool" where
  "machineInv p s \<longleftrightarrow>
     (\<forall>m \<in> set (machines p).
        (let l = scheduledOperations (machineObjs s m) in
           sorted_wrt (\<lambda>a b. endTime (opObjs s a) \<le> startTime (opObjs s b)) l \<and>
           (\<forall>a \<in> set l. isScheduled (opObjs s a)) \<and>
           availableTime (machineObjs s m) = (if l = [] then 0 else endTime (opObjs s (last l)))))"

text \<open>The store after the two reset loops, and what they establish for an operation.\<close>

definition cleared :: "Store \<Rightarrow> nat \<Rightarrow> bool" where
  "cleared s a \<longleftrightarrow> startTime (opObjs s a) = 0 \<and> endTime (opObjs s a) = 0"

definition initialStore :: "ProblemInstance \<Rightarrow> Store \<Rightarrow> Store" where
  "initialStore p s = clearOperations p (resetMachines p s)"

text \<open>The comparators handed to \<open>std::sort\<close> are strict weak orderings, whatever the store.\<close>

definition comparatorOK :: "(Operation \<Rightarrow> Operation \<Rightarrow> bool) \<Rightarrow> bool" where
  "comparatorOK compare \<longleftrightarrow> (\<forall>f. strict_weak_order (\<lambda>a b. compare (f a) (f b)))"

text \<open>Progress of the rounds: the number of operations of a job that are not scheduled; what
  one round achieves (every operation whose predecessors were scheduled at its start is
  scheduled at its end, and the flag stays false only if nothing changed); and the loop
  invariant that bounds the unscheduled operations of a job by the rounds that remain.\<close>

definition unscheduledCount :: "Store \<Rightarrow> nat \<Rightarrow> nat" where
  "unscheduledCount s j = length (filter (\<lambda>a. \<not> isScheduled (opObjs s a)) (opsOf s j))"

definition roundProgress :: "ProblemInstance \<Rightarrow> Store \<Rightarrow> Store \<times> bool \<Rightarrow> bool" where
  "roundProgress p s r \<longleftrightarrow>
     evolves s (fst r) \<and> (\<not> snd r \<longrightarrow> fst r = s) \<and>
     (\<forall>j \<in> set (jobs p). \<forall>b \<in> set (opsOf s j).
        allPrevOpsCompleted s (opObjs s b) (opsOf s j) \<longrightarrow> isScheduled (opObjs (fst r) b))"

definition loopInv :: "ProblemInstance \<Rightarrow> Store \<Rightarrow> Store \<times> bool \<times> int \<Rightarrow> bool" where
  "loopInv p s0 x \<longleftrightarrow>
     (case x of (s, f, i) \<Rightarrow>
        evolves s0 s \<and>
        (\<forall>j \<in> set (jobs p). int (unscheduledCount s j) \<le> max 0 (999 - i)) \<and>
        (\<not> f \<longrightarrow> allScheduled p s))"

section \<open>Concrete instances\<close>

text \<open>A store in which every address holds a blank object.\<close>

definition nullOperation :: Operation where
  "nullOperation = newOperation 0 0 0 0"

definition nullJob :: Job where
  "nullJob = \<lparr>Job.jobId = 0, operations = []\<rparr>"

definition nullMachine :: Machine where
  "nullMachine = \<lparr>Machine.machineId = 0, scheduledOperations = [], availableTime = 0\<rparr>"

definition emptyStore :: Store where
  "emptyStore = \<lparr>opObjs = (\<lambda>_. nullOperation), jobObjs = (\<lambda>_. nullJob),
     machineObjs = (\<lambda>_. nullMachine), resultObjs = (\<lambda>_. newScheduleResult),
     resultCount = 0, cerr = []\<rparr>"

text \<open>Two single-operation jobs on one machine, durations 10 and 2
  (the test \<open>SPTPrioritizesShortOperations\<close>).\<close>

definition twoJobsStore :: Store where
  "twoJobsStore = emptyStore
     \<lparr>opObjs := (\<lambda>_. nullOperation)(0 := newOperation 0 0 10 0, 1 := newOperation 1 0 2 1),
      jobObjs := (\<lambda>_. nullJob)(0 := \<lparr>Job.jobId = 0, operations = [0]\<rparr>,
                                 1 := \<lparr>Job.jobId = 1, operations = [1]\<rparr>)\<rparr>"

definition twoJobsProblem :: ProblemInstance where
  "twoJobsProblem = \<lparr>jobs = [0, 1], machines = [0], numJobs = 2, numMachines = 1\<rparr>"

text \<open>One job of three operations on three machines, durations 2, 3 and 1
  (the test \<open>SolveSingleJobMultipleMachines\<close>).\<close>

definition oneJobStore :: Store where
  "oneJobStore = emptyStore
     \<lparr>opObjs := (\<lambda>_. nullOperation)(0 := newOperation 0 0 2 0, 1 := newOperation 0 1 3 1,
                                      2 := newOperation 0 2 1 2),
      jobObjs := (\<lambda>_. nullJob)(0 := \<lparr>Job.jobId = 0, operations = [0, 1, 2]\<rparr>)\<rparr>"

definition oneJobProblem :: ProblemInstance where
  "oneJobProblem = \<lparr>jobs = [0], machines = [0, 1, 2], numJobs = 1, numMachines = 3\<rparr>"


definition mismatchProblem :: ProblemInstance where
  "mismatchProblem = \<lparr>jobs = [0, 1], machines = [0, 1], numJobs = 2, numMachines = 2\<rparr>"

text \<open>Two single-operation jobs on one machine, durations 2147483647 and 1: both are
  positive, and their sum is not a value of \<open>int\<close>.\<close>

definition wrapTwoJobsStore :: Store where
  "wrapTwoJobsStore = emptyStore
     \<lparr>opObjs := (\<lambda>_. nullOperation)(0 := newOperation 0 0 2147483647 0,
                                      1 := newOperation 1 0 1 1),
      jobObjs := (\<lambda>_. nullJob)(0 := \<lparr>Job.jobId = 0, operations = [0]\<rparr>,
                                 1 := \<lparr>Job.jobId = 1, operations = [1]\<rparr>)\<rparr>"

text \<open>One job of two operations on two machines, durations 2147483647 and 1.\<close>

definition wrapOneJobStore :: Store where
  "wrapOneJobStore = emptyStore
     \<lparr>opObjs := (\<lambda>_. nullOperation)(0 := newOperation 0 0 2147483647 0,
                                      1 := newOperation 0 1 1 1),
      jobObjs := (\<lambda>_. nullJob)(0 := \<lparr>Job.jobId = 0, operations = [0, 1]\<rparr>)\<rparr>"

definition wrapOneJobProblem :: ProblemInstance where
  "wrapOneJobProblem = \<lparr>jobs = [0], machines = [0, 1], numJobs = 1, numMachines = 2\<rparr>"

text \<open>A result object whose single operation runs from -5 to -2, as a hand-built
  \<open>ScheduleResult\<close> may hold (\<open>setScheduled\<close> accepts any two integers).\<close>

definition negativeStore :: Store where
  "negativeStore = emptyStore
     \<lparr>opObjs := (\<lambda>_. nullOperation)(0 := setScheduled (- 5) (- 2) (newOperation 0 0 3 0)),
      jobObjs := (\<lambda>_. nullJob)(0 := \<lparr>Job.jobId = 0, operations = [0]\<rparr>),
      resultObjs := (\<lambda>_. newScheduleResult)
        (0 := newScheduleResult
           \<lparr>problem := \<lparr>jobs = [0], machines = [0], numJobs = 1, numMachines = 1\<rparr>\<rparr>),
      resultCount := 1\<rparr>"

section \<open>Further notions used by the theorems\<close>

text \<open>No end time in the list is negative.\<close>

definition nonNegative :: "int list \<Rightarrow> bool" where
  "nonNegative es \<longleftrightarrow> (\<forall>e \<in> set es. 0 \<le> e)"

text \<open>Every job holds at most \<open>n\<close> operations.\<close>

definition jobSizesAtMost :: "nat \<Rightarrow> ProblemInstance \<Rightarrow> Store \<Rightarrow> bool" where
  "jobSizesAtMost n p s \<longleftrightarrow> (\<forall>j \<in> set (jobs p). length (opsOf s j) \<le> n)"

text \<open>No two operations of the problem have the same duration.\<close>

definition distinctDurations :: "ProblemInstance \<Rightarrow> Store \<Rightarrow> bool" where
  "distinctDurations p s \<longleftrightarrow>
     (\<forall>a \<in> set (allOps s p). \<forall>b \<in> set (allOps s p).
        a \<noteq> b \<longrightarrow> processingTime (opObjs s a) \<noteq> processingTime (opObjs s b))"

text \<open>What a reader of the result at address \<open>r\<close> sees: the \<open>k\<close>-th operation of its
  \<open>j\<close>-th job, and its \<open>m\<close>-th machine, through the pointers the result holds.\<close>

definition resultOperation :: "Store \<Rightarrow> nat \<Rightarrow> nat \<Rightarrow> nat \<Rightarrow> Operation" where
  "resultOperation s r j k = opObjs s (opsOf s (jobs (problem (resultObjs s r)) ! j) ! k)"

definition resultMachine :: "Store \<Rightarrow> nat \<Rightarrow> nat \<Rightarrow> Machine" where
  "resultMachine s r m = machineObjs s (machines (problem (resultObjs s r)) ! m)"

text \<open>The stores that runs on the concrete instances leave.\<close>

definition twoJobsAfterSPT :: Store where
  "twoJobsAfterSPT = snd (solve insertionSort SPT (Some twoJobsProblem) twoJobsStore)"

definition twoJobsAfterSPTthenLPT :: Store where
  "twoJobsAfterSPTthenLPT = snd (solve insertionSort LPT (Some twoJobsProblem) twoJobsAfterSPT)"

definition twoJobsAfterFIFO :: Store where
  "twoJobsAfterFIFO = scheduleFIFO twoJobsProblem twoJobsStore"

definition oneJobAfterSPT :: Store where
  "oneJobAfterSPT = scheduleSPT insertionSort oneJobProblem oneJobStore"



definition wrapTwoJobsAfterFIFO :: Store where
  "wrapTwoJobsAfterFIFO = scheduleFIFO twoJobsProblem wrapTwoJobsStore"

text \<open>Three single-operation jobs on three machines, durations 1, 4 and 8, and the store
  that \<open>solve\<close> leaves under FIFO.\<close>

definition threeJobsStore :: Store where
  "threeJobsStore = emptyStore
     \<lparr>opObjs := (\<lambda>_. nullOperation)(0 := newOperation 0 0 1 0, 1 := newOperation 1 1 4 0,
                                      2 := newOperation 2 2 8 0),
      jobObjs := (\<lambda>_. nullJob)(0 := \<lparr>Job.jobId = 0, operations = [0]\<rparr>,
                                 1 := \<lparr>Job.jobId = 1, operations = [1]\<rparr>,
                                 2 := \<lparr>Job.jobId = 2, operations = [2]\<rparr>)\<rparr>"

definition threeJobsProblem :: ProblemInstance where
  "threeJobsProblem = \<lparr>jobs = [0, 1, 2], machines = [0, 1, 2], numJobs = 3, numMachines = 3\<rparr>"

definition threeJobsAfterFIFO :: Store where
  "threeJobsAfterFIFO = snd (solve insertionSort FIFO (Some threeJobsProblem) threeJobsStore)"

text \<open>Two single-operation jobs on two machines, of duration 1500000000 each, and the store
  that \<open>solve\<close> leaves under FIFO.\<close>

definition longJobsStore :: Store where
  "longJobsStore = emptyStore
     \<lparr>opObjs := (\<lambda>_. nullOperation)(0 := newOperation 0 0 1500000000 0,
                                      1 := newOperation 1 1 1500000000 0),
      jobObjs := (\<lambda>_. nullJob)(0 := \<lparr>Job.jobId = 0, operations = [0]\<rparr>,
                                 1 := \<lparr>Job.jobId = 1, operations = [1]\<rparr>)\<rparr>"

definition longJobsProblem :: ProblemInstance where
  "longJobsProblem = \<lparr>jobs = [0, 1], machines = [0, 1], numJobs = 2, numMachines = 2\<rparr>"

definition longJobsAfterFIFO :: Store where
  "longJobsAfterFIFO = snd (solve insertionSort FIFO (Some longJobsProblem) longJobsStore)"

text \<open>An operation that every FIFO round commits again without ever scheduling it: it is
  ready, no other job holds it, its machine exists, and its duration is not positive or,
  added to the time at which its job is ready, exceeds the largest \<open>int\<close> (the end time
  then wraps around to a negative number).\<close>

definition stuck :: "ProblemInstance \<Rightarrow> nat \<Rightarrow> nat \<Rightarrow> Store \<Rightarrow> bool" where
  "stuck p j a s \<longleftrightarrow>
     j \<in> set (jobs p) \<and> a \<in> set (opsOf s j) \<and>
     (\<forall>k \<in> set (jobs p). a \<in> set (opsOf s k) \<longrightarrow> k = j) \<and>
     \<not> isScheduled (opObjs s a) \<and>
     (case getMachine p (Operation.machineId (opObjs s a)) of
        None \<Rightarrow> False
      | Some m \<Rightarrow> availableTime (machineObjs s m) \<le> 2147483647) \<and>
     allPrevOpsCompleted s (opObjs s a) (opsOf s j) \<and>
     jobReadyTime s (opObjs s a) (opsOf s j) \<le> 2147483647 \<and>
     (- 2147483648 \<le> processingTime (opObjs s a) \<and> processingTime (opObjs s a) \<le> 0 \<or>
      2147483647 < jobReadyTime s (opObjs s a) (opsOf s j) + processingTime (opObjs s a) \<and>
      processingTime (opObjs s a) \<le> 2147483648)"

text \<open>One job holding one operation of duration 0 (\<open>Parser::parseString\<close> accepts the
  line \<open>0 0 0\<close>).\<close>

definition zeroDurationStore :: Store where
  "zeroDurationStore = emptyStore
     \<lparr>opObjs := (\<lambda>_. nullOperation)(0 := newOperation 0 0 0 0),
      jobObjs := (\<lambda>_. nullJob)(0 := \<lparr>Job.jobId = 0, operations = [0]\<rparr>)\<rparr>"

definition zeroDurationProblem :: ProblemInstance where
  "zeroDurationProblem = \<lparr>jobs = [0], machines = [0], numJobs = 1, numMachines = 1\<rparr>"

text \<open>Two jobs on two machines that hold one \<open>Operation\<close> object in common: job 0 holds
  operation 1 alone; job 1 holds operation 0 (\<open>operationId\<close> 0, duration 5, machine 1) and
  then operation 1 (\<open>operationId\<close> 1, duration 3, machine 0).\<close>

definition sharedOperationStore :: Store where
  "sharedOperationStore = emptyStore
     \<lparr>opObjs := (\<lambda>_. nullOperation)(0 := newOperation 1 1 5 0, 1 := newOperation 0 0 3 1),
      jobObjs := (\<lambda>_. nullJob)(0 := \<lparr>Job.jobId = 0, operations = [1]\<rparr>,
                                 1 := \<lparr>Job.jobId = 1, operations = [0, 1]\<rparr>)\<rparr>"

definition sharedOperationAfterFIFO :: Store where
  "sharedOperationAfterFIFO = scheduleFIFO mismatchProblem sharedOperationStore"

text \<open>Every operation reachable from the problem starts at time 0 or later.\<close>

definition startsNonNegative :: "ProblemInstance \<Rightarrow> Store \<Rightarrow> bool" where
  "startsNonNegative p s \<longleftrightarrow>
     (\<forall>j \<in> set (jobs p). \<forall>a \<in> set (opsOf s j). 0 \<le> startTime (opObjs s a))"

text \<open>The bound on the times of a pass: the durations of the operations scheduled so far
  (each \<open>Operation\<close> object counted once), the durations of all operations, and the
  invariant of a pass on a problem whose durations are positive and sum to a value of
  \<open>int\<close>: no machine's \<open>availableTime\<close> and no operation's \<open>endTime\<close> exceeds the
  durations scheduled so far. Under it no sum of the pass wraps around.\<close>

definition scheduledWork :: "ProblemInstance \<Rightarrow> Store \<Rightarrow> int" where
  "scheduledWork p s =
     (\<Sum>a \<in> {a \<in> set (allOps s p). isScheduled (opObjs s a)}. processingTime (opObjs s a))"

definition totalWork :: "ProblemInstance \<Rightarrow> Store \<Rightarrow> int" where
  "totalWork p s = (\<Sum>a \<in> set (allOps s p). processingTime (opObjs s a))"

definition boundedInv :: "ProblemInstance \<Rightarrow> Store \<Rightarrow> bool" where
  "boundedInv p s \<longleftrightarrow>
     durationsPositive p s \<and> totalWork p s \<le> 2147483647 \<and>
     (\<forall>m \<in> set (machines p). availableTime (machineObjs s m) \<le> scheduledWork p s) \<and>
     (\<forall>a \<in> set (allOps s p). endTime (opObjs s a) \<le> scheduledWork p s)"
section \<open>Auxiliary lemmas\<close>

lemma int32_id: "- 2147483648 \<le> x \<Longrightarrow> x \<le> 2147483647 \<Longrightarrow> int32 x = x"
  by (simp add: int32_def)

lemma int32_range: "- 2147483648 \<le> int32 x \<and> int32 x \<le> 2147483647"
proof -
  have "0 \<le> (x + 2147483648) mod 4294967296" "(x + 2147483648) mod 4294967296 < 4294967296"
    by simp_all
  then show ?thesis unfolding int32_def by linarith
qed

lemma int32_wrap: "2147483647 < x \<Longrightarrow> x \<le> 4294967295 \<Longrightarrow> int32 x = x - 4294967296"
proof -
  assume a: "2147483647 < x" "x \<le> 4294967295"
  have "(x + 2147483648) mod 4294967296 = (x + 2147483648 - 4294967296) mod 4294967296"
    by (rule minus_mod_self2[symmetric])
  also have "\<dots> = x - 2147483648" using a by simp
  finally show ?thesis by (simp add: int32_def)
qed

lemma int32_add: "int32 (int32 x + y) = int32 (x + y)"
proof -
  have "(int32 x + y + 2147483648) mod 4294967296 =
        ((x + 2147483648) mod 4294967296 + y) mod 4294967296"
    by (simp add: int32_def algebra_simps)
  also have "\<dots> = (x + 2147483648 + y) mod 4294967296" by (rule mod_add_left_eq)
  finally show ?thesis by (simp add: int32_def algebra_simps)
qed

lemma sameStatic_refl [simp]: "sameStatic x x" by (simp add: sameStatic_def)

lemma sameStatic_trans: "sameStatic x y \<Longrightarrow> sameStatic y z \<Longrightarrow> sameStatic x z" by (simp add: sameStatic_def)

lemma sameShape_refl [simp]: "sameShape s s" by (simp add: sameShape_def)

lemma sameShape_trans: "sameShape s t \<Longrightarrow> sameShape t u \<Longrightarrow> sameShape s u"
  unfolding sameShape_def by (metis sameStatic_trans)

lemma evolves_refl [simp]: "evolves s s" by (simp add: evolves_def)

lemma evolves_trans: "evolves s t \<Longrightarrow> evolves t u \<Longrightarrow> evolves s u"
  unfolding evolves_def using sameShape_trans by metis

lemma evolves_opsOf: "evolves s t \<Longrightarrow> opsOf t j = opsOf s j"
  by (simp add: evolves_def sameShape_def opsOf_def)

lemma evolves_sched: "evolves s t \<Longrightarrow> isScheduled (opObjs s a) \<Longrightarrow> isScheduled (opObjs t a)"
  by (simp add: evolves_def)

lemma evolves_opId: "evolves s t \<Longrightarrow> operationId (opObjs t a) = operationId (opObjs s a)"
  by (simp add: evolves_def sameShape_def sameStatic_def)

lemma allPrevOpsCompleted_iff:
  "allPrevOpsCompleted s op bs \<longleftrightarrow>
     (\<forall>b \<in> set bs. operationId (opObjs s b) < operationId op \<longrightarrow> isScheduled (opObjs s b))"
  by (induction bs) auto

lemma fold_max_ge: 
  "t \<le> fold (\<lambda>b t. if P b then max t (g b) else (t::int)) bs t"
proof (induction bs arbitrary: t)
  case Nil then show ?case by simp
next
  case (Cons c bs)
  have "t \<le> (if P c then max t (g c) else t)" by simp
  also have "\<dots> \<le> fold (\<lambda>b t. if P b then max t (g b) else t) bs (if P c then max t (g c) else t)"
    by (rule Cons.IH)
  finally show ?case by simp
qed

lemma fold_max_mem:
  "b \<in> set bs \<Longrightarrow> P b \<Longrightarrow> g b \<le> fold (\<lambda>b t. if P b then max t (g b) else (t::int)) bs t"
proof (induction bs arbitrary: t)
  case Nil then show ?case by simp
next
  case (Cons c bs)
  show ?case
  proof (cases "b = c")
    case True
    have "g b \<le> max t (g b)" by simp
    also have "\<dots> \<le> fold (\<lambda>b t. if P b then max t (g b) else t) bs (max t (g b))" by (rule fold_max_ge)
    finally show ?thesis using True Cons.prems by simp
  next
    case False
    then show ?thesis using Cons by simp
  qed
qed

lemma jobReadyTime_nonneg: "0 \<le> jobReadyTime s op bs"
  unfolding jobReadyTime_def by (rule fold_max_ge)

lemma jobReadyTime_ge:
  "b \<in> set bs \<Longrightarrow> operationId (opObjs s b) < operationId op \<Longrightarrow> endTime (opObjs s b) \<le> jobReadyTime s op bs"
  unfolding jobReadyTime_def by (rule fold_max_mem[where P="\<lambda>b. operationId (opObjs s b) < operationId op"]) 

lemma scheduleOperation_simps [simp]:
  "opObjs (scheduleOperation m a st s) = (opObjs s)(a := setScheduled st (int32 (st + getDuration (opObjs s a))) (opObjs s a))"
  "jobObjs (scheduleOperation m a st s) = jobObjs s"
  "resultObjs (scheduleOperation m a st s) = resultObjs s"
  "resultCount (scheduleOperation m a st s) = resultCount s"
  "cerr (scheduleOperation m a st s) = cerr s"
  "machineObjs (scheduleOperation m a st s) = (machineObjs s)(m := (machineObjs s m)\<lparr>scheduledOperations := scheduledOperations (machineObjs s m) @ [a],
                       availableTime := int32 (st + getDuration (opObjs s a))\<rparr>)"
  by (simp_all add: scheduleOperation_def Let_def setScheduled_def getDuration_def)

lemma scheduleOperation_evolves:
  "\<not> isScheduled (opObjs s a) \<Longrightarrow> evolves s (scheduleOperation m a st s)"
  by (auto simp: evolves_def sameShape_def sameStatic_def setScheduled_def)

lemma scheduleOperation_precedenceInv:
  assumes inv: "precedenceInv p s" and un: "\<not> isScheduled (opObjs s a)"
    and rdy: "\<forall>j \<in> set (jobs p). a \<in> set (opsOf s j) \<longrightarrow>
               allPrevOpsCompleted s (opObjs s a) (opsOf s j) \<and> jobReadyTime s (opObjs s a) (opsOf s j) \<le> st"
  shows "precedenceInv p (scheduleOperation m a st s)"
  unfolding precedenceInv_def
proof (intro ballI impI)
  let ?s' = "scheduleOperation m a st s"
  fix j x y
  assume j: "j \<in> set (jobs p)" and x: "x \<in> set (opsOf ?s' j)" and y: "y \<in> set (opsOf ?s' j)"
    and h: "operationId (opObjs ?s' x) < operationId (opObjs ?s' y) \<and> isScheduled (opObjs ?s' y)"
  have x': "x \<in> set (opsOf s j)" and y': "y \<in> set (opsOf s j)" using x y by (simp_all add: opsOf_def)
  have ids: "operationId (opObjs s x) < operationId (opObjs s y)"
    using h by (auto simp: setScheduled_def split: if_splits)
  then have xy: "x \<noteq> y" by auto
  show "isScheduled (opObjs ?s' x) \<and> endTime (opObjs ?s' x) \<le> startTime (opObjs ?s' y)"
  proof (cases "y = a")
    case True
    then have xa: "x \<noteq> a" using xy by simp
    from rdy j y' True have ap: "allPrevOpsCompleted s (opObjs s a) (opsOf s j)"
      and jr: "jobReadyTime s (opObjs s a) (opsOf s j) \<le> st" by auto
    from ap x' ids True have sx: "isScheduled (opObjs s x)" by (auto simp: allPrevOpsCompleted_iff)
    from jobReadyTime_ge[OF x', of s "opObjs s a"] ids True jr have "endTime (opObjs s x) \<le> st" by simp
    then show ?thesis using True xa sx by (simp add: setScheduled_def)
  next
    case False
    then have sy: "isScheduled (opObjs s y)" using h by simp
    from inv j x' y' ids sy have sx: "isScheduled (opObjs s x)" and le: "endTime (opObjs s x) \<le> startTime (opObjs s y)"
      unfolding precedenceInv_def by blast+
    from sx un have "x \<noteq> a" by auto
    then show ?thesis using False sx le by simp
  qed
qed

lemma scheduleOperation_machineInv:
  assumes inv: "machineInv p s" and un: "\<not> isScheduled (opObjs s a)"
    and pos: "0 < processingTime (opObjs s a)" and av: "availableTime (machineObjs s m) \<le> st"
    and fit: "int32 (st + getDuration (opObjs s a)) = st + getDuration (opObjs s a)"
  shows "machineInv p (scheduleOperation m a st s)"
  unfolding machineInv_def Let_def
proof (intro ballI)
  let ?s' = "scheduleOperation m a st s"
  fix k assume k: "k \<in> set (machines p)"
  let ?l = "scheduledOperations (machineObjs s k)"
  from inv k have srt: "sorted_wrt (\<lambda>a b. endTime (opObjs s a) \<le> startTime (opObjs s b)) ?l"
    and sch: "\<forall>b \<in> set ?l. isScheduled (opObjs s b)"
    and avk: "availableTime (machineObjs s k) = (if ?l = [] then 0 else endTime (opObjs s (last ?l)))"
    unfolding machineInv_def Let_def by auto
  from sch un have nin: "a \<notin> set ?l" by auto
  have same: "\<And>b. b \<in> set ?l \<Longrightarrow> opObjs ?s' b = opObjs s b" using nin by auto
  have srt': "sorted_wrt (\<lambda>a b. endTime (opObjs ?s' a) \<le> startTime (opObjs ?s' b)) ?l"
    using srt same by (smt (verit) sorted_wrt_mono_rel)
  have sa: "isScheduled (opObjs ?s' a)"
    using pos by (simp add: fit) (simp add: isScheduled_def setScheduled_def getDuration_def)
  show "sorted_wrt (\<lambda>a b. endTime (opObjs ?s' a) \<le> startTime (opObjs ?s' b)) (scheduledOperations (machineObjs ?s' k)) \<and>
        (\<forall>a\<in>set (scheduledOperations (machineObjs ?s' k)). isScheduled (opObjs ?s' a)) \<and>
        availableTime (machineObjs ?s' k) =
          (if scheduledOperations (machineObjs ?s' k) = [] then 0
           else endTime (opObjs ?s' (last (scheduledOperations (machineObjs ?s' k)))))"
  proof (cases "k = m")
    case False
    then have l: "scheduledOperations (machineObjs ?s' k) = ?l" "availableTime (machineObjs ?s' k) = availableTime (machineObjs s k)" by simp_all
    have "?l \<noteq> [] \<Longrightarrow> opObjs ?s' (last ?l) = opObjs s (last ?l)" using same by simp
    then show ?thesis unfolding l using srt' sch same avk by auto
  next
    case True
    have l: "scheduledOperations (machineObjs ?s' k) = ?l @ [a]" "availableTime (machineObjs ?s' k) = st + getDuration (opObjs s a)"
      using True by (simp_all add: fit)
    have ends: "\<forall>b \<in> set ?l. endTime (opObjs s b) \<le> availableTime (machineObjs s k)"
    proof
      fix b assume b: "b \<in> set ?l"
      then have ne: "?l \<noteq> []" by auto
      show "endTime (opObjs s b) \<le> availableTime (machineObjs s k)"
      proof (cases "b = last ?l")
        case True then show ?thesis using avk ne by simp
      next
        case False
        with b ne have "b \<in> set (butlast ?l)" by (metis append_butlast_last_id set_append Un_iff list.set(1) list.simps(15) insert_iff empty_iff)
        moreover from srt ne have "sorted_wrt (\<lambda>a b. endTime (opObjs s a) \<le> startTime (opObjs s b)) (butlast ?l @ [last ?l])" by simp
        ultimately have "endTime (opObjs s b) \<le> startTime (opObjs s (last ?l))" by (simp add: sorted_wrt_append)
        moreover have "isScheduled (opObjs s (last ?l))" using sch ne by simp
        ultimately show ?thesis using avk ne by (simp add: isScheduled_def)
      qed
    qed
    have "\<forall>b \<in> set ?l. endTime (opObjs ?s' b) \<le> startTime (opObjs ?s' a)"
      using ends same av True by (auto simp: setScheduled_def)
    then have "sorted_wrt (\<lambda>a b. endTime (opObjs ?s' a) \<le> startTime (opObjs ?s' b)) (?l @ [a])"
      using srt' by (simp add: sorted_wrt_append)
    moreover have "\<forall>b\<in>set (?l @ [a]). isScheduled (opObjs ?s' b)" using sch same sa by auto
    moreover have "endTime (opObjs ?s' (last (?l @ [a]))) = st + getDuration (opObjs s a)"
      by (simp add: fit) (simp add: setScheduled_def)
    moreover have "?l @ [a] \<noteq> []" by simp
    ultimately show ?thesis unfolding l by presburger
  qed
qed

lemma fold_invariant:
  assumes "I st" and "\<And>x st. x \<in> set xs \<Longrightarrow> I st \<Longrightarrow> I (f x st)"
  shows "I (fold f xs st)"
  using assms by (induction xs arbitrary: st) auto

lemma sameShape_opsOf: "sameShape s t \<Longrightarrow> opsOf t j = opsOf s j"
  by (simp add: sameShape_def opsOf_def)

lemma sameShape_opsNotShared: "sameShape s t \<Longrightarrow> opsNotShared p t = opsNotShared p s"
  by (simp add: opsNotShared_def sameShape_opsOf)

lemma sameShape_jobIdsConsistent: "sameShape s t \<Longrightarrow> jobIdsConsistent p t = jobIdsConsistent p s"
  by (simp add: jobIdsConsistent_def sameShape_opsOf) (simp add: sameShape_def sameStatic_def)

lemma sameShape_machineIdsValid: "sameShape s t \<Longrightarrow> machineIdsValid p t = machineIdsValid p s"
  by (simp add: machineIdsValid_def sameShape_opsOf) (simp add: sameShape_def sameStatic_def)

lemma sameShape_durationsPositive: "sameShape s t \<Longrightarrow> durationsPositive p t = durationsPositive p s"
  by (simp add: durationsPositive_def sameShape_opsOf) (simp add: sameShape_def sameStatic_def)

lemma evolves_sameShape: "evolves s t \<Longrightarrow> sameShape s t" by (simp add: evolves_def)

subsection \<open>FIFO visits\<close>

lemma fifoVisit_disj:
  "fifoVisit p j a st = st \<or>
   (\<exists>m. \<not> isScheduled (opObjs (fst st) a) \<and>
      getMachine p (Operation.machineId (opObjs (fst st) a)) = Some m \<and>
      allPrevOpsCompleted (fst st) (opObjs (fst st) a) (opsOf (fst st) j) \<and>
      fifoVisit p j a st =
         (scheduleOperation m a (max (availableTime (machineObjs (fst st) m))
                                     (jobReadyTime (fst st) (opObjs (fst st) a) (opsOf (fst st) j))) (fst st), True))"
  by (cases st) (simp add: fifoVisit_def opsOf_def Let_def split: option.splits)

lemma fifoVisit_cases:
  obtains (skip) "fifoVisit p j a st = st"
  | (commit) m where "\<not> isScheduled (opObjs (fst st) a)"
      "getMachine p (Operation.machineId (opObjs (fst st) a)) = Some m"
      "allPrevOpsCompleted (fst st) (opObjs (fst st) a) (opsOf (fst st) j)"
      "fifoVisit p j a st =
         (scheduleOperation m a (max (availableTime (machineObjs (fst st) m))
                                     (jobReadyTime (fst st) (opObjs (fst st) a) (opsOf (fst st) j))) (fst st), True)"
  using fifoVisit_disj[of p j a st] by blast

lemma fifoVisit_evolves: "evolves (fst st) (fst (fifoVisit p j a st))"
  by (cases rule: fifoVisit_cases[of p j a st]) (auto intro: scheduleOperation_evolves)

lemma fifoVisit_precedenceInv:
  assumes "precedenceInv p (fst st)" "opsNotShared p (fst st)" "j \<in> set (jobs p)" "a \<in> set (opsOf (fst st) j)"
  shows "precedenceInv p (fst (fifoVisit p j a st))"
proof (cases rule: fifoVisit_cases[of p j a st])
  case skip then show ?thesis using assms by simp
next
  case (commit m)
  have "\<forall>k \<in> set (jobs p). a \<in> set (opsOf (fst st) k) \<longrightarrow> k = j"
    using assms(2-4) unfolding opsNotShared_def by blast
  then show ?thesis unfolding commit(4) fst_conv
    using commit(1,3) assms(1) by (intro scheduleOperation_precedenceInv) auto
qed

lemma fold_reach:
  assumes "x \<in> set xs" and "I st"
    and inv: "\<And>y st. y \<in> set xs \<Longrightarrow> I st \<Longrightarrow> I (f y st)"
    and est: "\<And>st. I st \<Longrightarrow> Q (f x st)"
    and pres: "\<And>y st. y \<in> set xs \<Longrightarrow> I st \<Longrightarrow> Q st \<Longrightarrow> Q (f y st)"
  shows "Q (fold f xs st)"
  using assms(1,2) inv pres
proof (induction xs arbitrary: st)
  case Nil then show ?case by simp
next
  case (Cons y ys)
  show ?case
  proof (cases "x = y")
    case True
    have "I (f y st) \<and> Q (f y st)" using Cons.prems(2,3) est True by simp
    then have "I (fold f ys (f y st)) \<and> Q (fold f ys (f y st))"
      by (rule fold_invariant[where I="\<lambda>st. I st \<and> Q st"]) (use Cons.prems in auto)
    then show ?thesis by simp
  next
    case False
    then have "x \<in> set ys" using Cons.prems(1) by simp
    then have "Q (fold f ys (f y st))"
      by (rule Cons.IH) (use Cons.prems in auto)
    then show ?thesis by simp
  qed
qed

subsection \<open>The reset loops\<close>

lemma resetMachines_frame:
  "opObjs (resetMachines p s) = opObjs s \<and> jobObjs (resetMachines p s) = jobObjs s \<and>
   resultObjs (resetMachines p s) = resultObjs s \<and> resultCount (resetMachines p s) = resultCount s \<and>
   cerr (resetMachines p s) = cerr s"
  unfolding resetMachines_def
  by (rule fold_invariant[where I="\<lambda>t. opObjs t = opObjs s \<and> jobObjs t = jobObjs s \<and>
        resultObjs t = resultObjs s \<and> resultCount t = resultCount s \<and> cerr t = cerr s"]) auto

lemma resetMachines_sameShape: "sameShape s (resetMachines p s)"
  using resetMachines_frame[of p s] by (simp add: sameShape_def)

lemma resetMachines_reset:
  assumes "m \<in> set (machines p)"
  shows "scheduledOperations (machineObjs (resetMachines p s) m) = [] \<and>
         availableTime (machineObjs (resetMachines p s) m) = 0"
  unfolding resetMachines_def
  by (rule fold_reach[where I="\<lambda>_. True" and x=m]) (use assms in \<open>auto simp: reset_def\<close>)

lemma clearOperation_sameShape: "sameShape s (clearOperation a s)"
  by (simp add: clearOperation_def sameShape_def sameStatic_def)

lemma clearOperation_machineObjs: "machineObjs (clearOperation a s) = machineObjs s"
  by (simp add: clearOperation_def)

lemma clearOperations_frame:
  "sameShape s (clearOperations p s) \<and> machineObjs (clearOperations p s) = machineObjs s"
  unfolding clearOperations_def
proof (rule fold_invariant[where I="\<lambda>t. sameShape s t \<and> machineObjs t = machineObjs s"])
  show "sameShape s s \<and> machineObjs s = machineObjs s" by simp
next
  fix j t assume t: "sameShape s t \<and> machineObjs t = machineObjs s"
  show "sameShape s (fold clearOperation (operations (jobObjs t j)) t) \<and>
        machineObjs (fold clearOperation (operations (jobObjs t j)) t) = machineObjs s"
    by (rule fold_invariant[where I="\<lambda>t. sameShape s t \<and> machineObjs t = machineObjs s"])
       (use t in \<open>auto intro: sameShape_trans clearOperation_sameShape simp: clearOperation_machineObjs\<close>)
qed

lemma clearOperation_cleared: "cleared (clearOperation a s) a"
  by (simp add: cleared_def clearOperation_def)

lemma clearOperation_keeps: "cleared s a \<Longrightarrow> cleared (clearOperation b s) a"
  by (simp add: cleared_def clearOperation_def)

lemma fold_clearOperation_keeps: "cleared s a \<Longrightarrow> cleared (fold clearOperation bs s) a"
  by (rule fold_invariant[where I="\<lambda>t. cleared t a"]) (auto intro: clearOperation_keeps)

lemma fold_clearOperation_sameShape: "sameShape s (fold clearOperation bs s)"
  by (rule fold_invariant[where I="\<lambda>t. sameShape s t"])
     (auto intro: sameShape_trans clearOperation_sameShape)

lemma fold_clearOperation_cleared:
  "a \<in> set bs \<Longrightarrow> cleared (fold clearOperation bs s) a"
  by (rule fold_reach[where I="\<lambda>_. True" and x=a])
     (auto intro: clearOperation_cleared clearOperation_keeps)

lemma clearOperations_cleared:
  assumes j: "j \<in> set (jobs p)" and a: "a \<in> set (opsOf s j)"
  shows "cleared (clearOperations p s) a"
  unfolding clearOperations_def
proof (rule fold_reach[where I="\<lambda>t. sameShape s t" and x=j])
  show "j \<in> set (jobs p)" by (rule j)
  show "sameShape s s" by simp
next
  fix k t assume "sameShape s t"
  then show "sameShape s (fold clearOperation (operations (jobObjs t k)) t)"
    using fold_clearOperation_sameShape sameShape_trans by blast
next
  fix t assume "sameShape s t"
  then have "a \<in> set (operations (jobObjs t j))" using a by (simp add: sameShape_def opsOf_def)
  then show "cleared (fold clearOperation (operations (jobObjs t j)) t) a"
    by (rule fold_clearOperation_cleared)
next
  fix k t assume "cleared t a"
  then show "cleared (fold clearOperation (operations (jobObjs t k)) t) a"
    by (rule fold_clearOperation_keeps)
qed

lemma initialStore_sameShape: "sameShape s (initialStore p s)"
  unfolding initialStore_def
  using resetMachines_sameShape clearOperations_frame sameShape_trans by blast

lemma initialStore_unscheduled:
  assumes "j \<in> set (jobs p)" "a \<in> set (opsOf s j)"
  shows "\<not> isScheduled (opObjs (initialStore p s) a)"
proof -
  have "a \<in> set (opsOf (resetMachines p s) j)"
    using assms(2) sameShape_opsOf[OF resetMachines_sameShape] by simp
  from clearOperations_cleared[OF assms(1) this]
  show ?thesis by (simp add: initialStore_def cleared_def isScheduled_def)
qed

lemma initialStore_precedenceInv: "precedenceInv p (initialStore p s)"
  unfolding precedenceInv_def
  using initialStore_unscheduled[where p=p and s=s] sameShape_opsOf[OF initialStore_sameShape[of s p]]
  by auto

lemma initialStore_machineInv: "machineInv p (initialStore p s)"
proof -
  have "machineObjs (initialStore p s) = machineObjs (resetMachines p s)"
    unfolding initialStore_def using clearOperations_frame by blast
  then show ?thesis
    unfolding machineInv_def Let_def using resetMachines_reset[of _ p s] by simp
qed

declare fifoLoop.simps [simp del] priorityLoop.simps [simp del]

lemma fifoJob_invariant:
  assumes "I (fst (st :: Store \<times> bool))" "evolves s (fst st)"
    and step: "\<And>a (st :: Store \<times> bool). a \<in> set (opsOf s j) \<Longrightarrow> evolves s (fst st) \<Longrightarrow> I (fst st) \<Longrightarrow> I (fst (fifoVisit p j a st))"
  shows "I (fst (fifoJob p j st)) \<and> evolves s (fst (fifoJob p j st))"
proof -
  have ops: "operations (jobObjs (fst st) j) = opsOf s j"
    using evolves_opsOf[OF assms(2), of j] by (simp add: opsOf_def)
  show ?thesis unfolding fifoJob_def ops
  proof (rule fold_invariant[where I="\<lambda>st. I (fst st) \<and> evolves s (fst st)"])
    show "I (fst st) \<and> evolves s (fst st)" using assms(1,2) by simp
  next
    fix a and st :: "Store \<times> bool" assume "a \<in> set (opsOf s j)" "I (fst st) \<and> evolves s (fst st)"
    then show "I (fst (fifoVisit p j a st)) \<and> evolves s (fst (fifoVisit p j a st))"
      using step evolves_trans[OF _ fifoVisit_evolves] by blast
  qed
qed

lemma fifoRound_invariant:
  assumes "I s"
    and step: "\<And>j a (st :: Store \<times> bool). j \<in> set (jobs p) \<Longrightarrow> a \<in> set (opsOf s j) \<Longrightarrow> evolves s (fst st) \<Longrightarrow>
                 I (fst st) \<Longrightarrow> I (fst (fifoVisit p j a st))"
  shows "I (fst (fifoRound p s)) \<and> evolves s (fst (fifoRound p s))"
  unfolding fifoRound_def
proof (rule fold_invariant[where I="\<lambda>st. I (fst st) \<and> evolves s (fst st)"])
  show "I (fst (s, False)) \<and> evolves s (fst (s, False))" using assms(1) by simp
next
  fix j and st :: "Store \<times> bool" assume "j \<in> set (jobs p)" "I (fst st) \<and> evolves s (fst st)"
  then show "I (fst (fifoJob p j st)) \<and> evolves s (fst (fifoJob p j st))"
    using fifoJob_invariant[where I=I and s=s and j=j and p=p and st=st] step by blast
qed

lemma fifoLoop_invariant:
  assumes "I (fst st)" and "\<And>s. I s \<Longrightarrow> I (fst (fifoRound p s))"
  shows "I (fst (fifoLoop p st))"
  using assms
proof (induction p st rule: fifoLoop.induct)
  case (1 p s f i)
  show ?case
  proof (cases "f \<and> i < 1000")
    case True
    have "I (fst (fifoRound p s))" using 1(2,3) by simp
    then have "I (fst (fifoLoop p (fst (fifoRound p s), snd (fifoRound p s), i + 1)))"
      using 1(1)[OF True] 1(3) by simp
    then show ?thesis using True by (subst fifoLoop.simps) simp
  next
    case False
    then show ?thesis using 1(2) by (subst fifoLoop.simps) auto
  qed
qed

lemma scheduleFIFO_eq:
  "\<exists>c. scheduleFIFO p s = (fst (fifoLoop p (initialStore p s, True, 0)))\<lparr>cerr := c\<rparr>"
proof -
  obtain s' f i where r: "fifoLoop p (initialStore p s, True, 0) = (s', f, i)"
    by (cases "fifoLoop p (initialStore p s, True, 0)") auto
  have e: "s' = s'\<lparr>cerr := cerr s'\<rparr>" by simp
  show ?thesis
  proof (cases "i \<ge> 1000")
    case True
    then show ?thesis unfolding scheduleFIFO_def initialStore_def[symmetric] r by auto
  next
    case False
    then have "scheduleFIFO p s = s'" unfolding scheduleFIFO_def initialStore_def[symmetric] r by simp
    then show ?thesis using e unfolding r by (metis fst_conv)
  qed
qed

lemma precedenceInv_cerr [simp]: "precedenceInv p (s\<lparr>cerr := c\<rparr>) = precedenceInv p s"
  by (simp add: precedenceInv_def opsOf_def)

lemma machineInv_cerr [simp]: "machineInv p (s\<lparr>cerr := c\<rparr>) = machineInv p s"
  by (simp add: machineInv_def)

lemma fifo_precedenceInv:
  assumes "opsNotShared p s"
  shows "precedenceInv p (scheduleFIFO p s)"
proof -
  let ?s0 = "initialStore p s"
  have ns: "opsNotShared p ?s0" using assms sameShape_opsNotShared[OF initialStore_sameShape] by simp
  have round: "\<And>t. evolves ?s0 t \<and> precedenceInv p t \<Longrightarrow>
        evolves ?s0 (fst (fifoRound p t)) \<and> precedenceInv p (fst (fifoRound p t))"
  proof -
    fix t assume t: "evolves ?s0 t \<and> precedenceInv p t"
    then have nst: "opsNotShared p t" using ns sameShape_opsNotShared[OF evolves_sameShape] by blast
    have "precedenceInv p (fst (fifoRound p t)) \<and> evolves t (fst (fifoRound p t))"
    proof (rule fifoRound_invariant)
      show "precedenceInv p t" using t by simp
    next
      fix j a and st :: "Store \<times> bool" assume h: "j \<in> set (jobs p)" "a \<in> set (opsOf t j)" "evolves t (fst st)" "precedenceInv p (fst st)"
      have "opsNotShared p (fst st)" using nst sameShape_opsNotShared[OF evolves_sameShape[OF h(3)]] by simp
      moreover have "a \<in> set (opsOf (fst st) j)" using h(2) evolves_opsOf[OF h(3)] by simp
      ultimately show "precedenceInv p (fst (fifoVisit p j a st))"
        using h(1,4) by (intro fifoVisit_precedenceInv)
    qed
    then show "evolves ?s0 (fst (fifoRound p t)) \<and> precedenceInv p (fst (fifoRound p t))"
      using t evolves_trans by blast
  qed
  have "evolves ?s0 (fst (fifoLoop p (?s0, True, 0))) \<and> precedenceInv p (fst (fifoLoop p (?s0, True, 0)))"
    by (rule fifoLoop_invariant[where I="\<lambda>t. evolves ?s0 t \<and> precedenceInv p t"])
       (use round initialStore_precedenceInv in auto)
  then show ?thesis using scheduleFIFO_eq[of p s] by auto
qed

lemma sptCompare_OK: "comparatorOK sptCompare"
  unfolding comparatorOK_def strict_weak_order_def sptCompare_def by auto

lemma lptCompare_OK: "comparatorOK lptCompare"
  unfolding comparatorOK_def strict_weak_order_def lptCompare_def by auto

lemma sortedReady_mset:
  assumes "std_sort sortf" "comparatorOK compare"
  shows "mset (sortedReady sortf compare p s) = mset (readyOperations p s)"
  using assms unfolding sortedReady_def std_sort_def comparatorOK_def by blast

lemma sortedReady_set:
  assumes "std_sort sortf" "comparatorOK compare"
  shows "set (sortedReady sortf compare p s) = set (readyOperations p s)"
  using sortedReady_mset[OF assms] by (rule mset_eq_setD)

lemma readyOperations_iff:
  "a \<in> set (readyOperations p s) \<longleftrightarrow>
     (\<exists>j \<in> set (jobs p). a \<in> set (opsOf s j) \<and> \<not> isScheduled (opObjs s a) \<and>
        allPrevOpsCompleted s (opObjs s a) (opsOf s j))"
  by (auto simp: readyOperations_def opsOf_def)

lemma priorityVisit_disj:
  "priorityVisit p a st = st \<or>
   (\<exists>m. \<not> isScheduled (opObjs (fst st) a) \<and>
      getMachine p (Operation.machineId (opObjs (fst st) a)) = Some m \<and>
      priorityVisit p a st =
         (scheduleOperation m a
            (max (availableTime (machineObjs (fst st) m))
                 (case getJob p (Operation.jobId (opObjs (fst st) a)) of None \<Rightarrow> 0
                  | Some j \<Rightarrow> jobReadyTime (fst st) (opObjs (fst st) a) (opsOf (fst st) j)))
            (fst st), True))"
  by (cases st) (simp add: priorityVisit_def opsOf_def Let_def split: option.splits)

lemma priorityVisit_cases:
  obtains (skip) "priorityVisit p a st = st"
  | (commit) m where "\<not> isScheduled (opObjs (fst st) a)"
      "getMachine p (Operation.machineId (opObjs (fst st) a)) = Some m"
      "priorityVisit p a st =
         (scheduleOperation m a
            (max (availableTime (machineObjs (fst st) m))
                 (case getJob p (Operation.jobId (opObjs (fst st) a)) of None \<Rightarrow> 0
                  | Some j \<Rightarrow> jobReadyTime (fst st) (opObjs (fst st) a) (opsOf (fst st) j)))
            (fst st), True)"
  using priorityVisit_disj[of p a st] by blast

lemma priorityVisit_evolves: "evolves (fst st) (fst (priorityVisit p a st))"
  by (cases rule: priorityVisit_cases[of p a st]) (auto intro: scheduleOperation_evolves)

lemma jobIdsConsistent_getJob:
  assumes "jobIdsConsistent p s" "k \<in> set (jobs p)" "a \<in> set (opsOf s k)"
  shows "getJob p (Operation.jobId (opObjs s a)) = Some k"
proof -
  from assms(2) obtain i where i: "i < length (jobs p)" "jobs p ! i = k" by (auto simp: in_set_conv_nth)
  with assms(1,3) have "Operation.jobId (opObjs s a) = int i" unfolding jobIdsConsistent_def by blast
  then show ?thesis using i by (simp add: getJob_def)
qed

lemma allPrevOpsCompleted_evolves:
  assumes "evolves s t" "allPrevOpsCompleted s (opObjs s a) bs"
  shows "allPrevOpsCompleted t (opObjs t a) bs"
  using assms unfolding allPrevOpsCompleted_iff
  by (metis evolves_opId evolves_sched)

lemma priorityVisit_precedenceInv:
  assumes inv: "precedenceInv p (fst st)" and jc: "jobIdsConsistent p (fst st)"
    and ev: "evolves s (fst st)" and rdy: "a \<in> set (readyOperations p s)"
  shows "precedenceInv p (fst (priorityVisit p a st))"
proof (cases rule: priorityVisit_cases[of p a st])
  case skip then show ?thesis using inv by simp
next
  case (commit m)
  let ?t = "fst st"
  from rdy obtain j where j: "j \<in> set (jobs p)" "a \<in> set (opsOf s j)"
      "allPrevOpsCompleted s (opObjs s a) (opsOf s j)" by (auto simp: readyOperations_iff)
  have aj: "a \<in> set (opsOf ?t j)" using j(2) evolves_opsOf[OF ev] by simp
  have gj: "getJob p (Operation.jobId (opObjs ?t a)) = Some j"
    by (rule jobIdsConsistent_getJob[OF jc j(1) aj])
  have ap: "allPrevOpsCompleted ?t (opObjs ?t a) (opsOf ?t j)"
    using allPrevOpsCompleted_evolves[OF ev j(3)] evolves_opsOf[OF ev] by simp
  have uniq: "\<forall>k \<in> set (jobs p). a \<in> set (opsOf ?t k) \<longrightarrow> k = j"
    using jobIdsConsistent_getJob[OF jc] gj by fastforce
  show ?thesis unfolding commit(3) fst_conv gj option.case
    using commit(1) inv ap uniq by (intro scheduleOperation_precedenceInv) auto
qed

lemma priorityRound_invariant:
  assumes "I s" "std_sort sortf" "comparatorOK compare"
    and step: "\<And>a (st :: Store \<times> bool). a \<in> set (readyOperations p s) \<Longrightarrow> evolves s (fst st) \<Longrightarrow>
                 I (fst st) \<Longrightarrow> I (fst (priorityVisit p a st))"
  shows "I (fst (priorityRound sortf compare p s)) \<and> evolves s (fst (priorityRound sortf compare p s))"
  unfolding priorityRound_def
proof (rule fold_invariant[where I="\<lambda>st. I (fst st) \<and> evolves s (fst st)"])
  show "I (fst (s, False)) \<and> evolves s (fst (s, False))" using assms(1) by simp
next
  fix a and st :: "Store \<times> bool"
  assume "a \<in> set (sortedReady sortf compare p s)" "I (fst st) \<and> evolves s (fst st)"
  then show "I (fst (priorityVisit p a st)) \<and> evolves s (fst (priorityVisit p a st))"
    using step sortedReady_set[OF assms(2,3)] evolves_trans[OF _ priorityVisit_evolves] by blast
qed

lemma priorityLoop_invariant:
  assumes "I (fst st)" and "\<And>s. I s \<Longrightarrow> I (fst (priorityRound sortf compare p s))"
  shows "I (fst (priorityLoop sortf compare p st))"
  using assms
proof (induction sortf compare p st rule: priorityLoop.induct)
  case (1 sortf compare p s f i)
  show ?case
  proof (cases "f \<and> i < 1000")
    case True
    have "I (fst (priorityRound sortf compare p s))" using 1(2,3) by simp
    then have "I (fst (priorityLoop sortf compare p
        (fst (priorityRound sortf compare p s), snd (priorityRound sortf compare p s), i + 1)))"
      using 1(1)[OF True] 1(3) by simp
    then show ?thesis using True by (subst priorityLoop.simps) simp
  next
    case False
    then show ?thesis using 1(2) by (subst priorityLoop.simps) auto
  qed
qed

lemma priority_precedenceInv:
  assumes ss: "std_sort sortf" and co: "comparatorOK compare" and jc: "jobIdsConsistent p s0"
    and inv: "precedenceInv p s0"
  shows "precedenceInv p (scheduleWithPriority sortf p compare s0)"
proof -
  have round: "\<And>t. evolves s0 t \<and> precedenceInv p t \<Longrightarrow>
        evolves s0 (fst (priorityRound sortf compare p t)) \<and>
        precedenceInv p (fst (priorityRound sortf compare p t))"
  proof -
    fix t assume t: "evolves s0 t \<and> precedenceInv p t"
    then have jct: "jobIdsConsistent p t" using jc sameShape_jobIdsConsistent[OF evolves_sameShape] by blast
    have "precedenceInv p (fst (priorityRound sortf compare p t)) \<and>
          evolves t (fst (priorityRound sortf compare p t))"
    proof (rule priorityRound_invariant[OF _ ss co])
      show "precedenceInv p t" using t by simp
    next
      fix a and st :: "Store \<times> bool"
      assume h: "a \<in> set (readyOperations p t)" "evolves t (fst st)" "precedenceInv p (fst st)"
      have "jobIdsConsistent p (fst st)"
        using jct sameShape_jobIdsConsistent[OF evolves_sameShape[OF h(2)]] by simp
      then show "precedenceInv p (fst (priorityVisit p a st))"
        using h by (intro priorityVisit_precedenceInv[where s=t])
    qed
    then show "evolves s0 (fst (priorityRound sortf compare p t)) \<and>
        precedenceInv p (fst (priorityRound sortf compare p t))"
      using t evolves_trans by blast
  qed
  have "evolves s0 (fst (priorityLoop sortf compare p (s0, True, 0))) \<and>
        precedenceInv p (fst (priorityLoop sortf compare p (s0, True, 0)))"
    by (rule priorityLoop_invariant[where I="\<lambda>t. evolves s0 t \<and> precedenceInv p t"])
       (use round inv in auto)
  then show ?thesis by (simp add: scheduleWithPriority_def)
qed

lemma readyOperations_reachable:
  "a \<in> set (readyOperations p s) \<Longrightarrow> \<exists>j \<in> set (jobs p). a \<in> set (opsOf s j)"
  by (auto simp: readyOperations_iff)

lemma readyOperations_subset_allOps: "set (readyOperations p s) \<subseteq> set (allOps s p)"
  by (auto simp: readyOperations_iff allOps_def)

lemma allOps_iff: "a \<in> set (allOps s p) \<longleftrightarrow> (\<exists>j \<in> set (jobs p). a \<in> set (opsOf s j))"
  by (auto simp: allOps_def)

lemma opsOf_scheduleOperation: "opsOf (scheduleOperation m a st s) = opsOf s"
  by (rule ext) (simp add: opsOf_def)

lemma scheduledWork_nonneg:
  assumes "durationsPositive p s"
  shows "0 \<le> scheduledWork p s"
  unfolding scheduledWork_def
proof (rule sum_nonneg)
  fix a assume "a \<in> {a \<in> set (allOps s p). isScheduled (opObjs s a)}"
  then have "0 < processingTime (opObjs s a)"
    using assms by (auto simp: durationsPositive_def allOps_iff)
  then show "0 \<le> processingTime (opObjs s a)" by simp
qed

lemma scheduledWork_le_totalWork:
  assumes "durationsPositive p s"
  shows "scheduledWork p s \<le> totalWork p s"
  unfolding scheduledWork_def totalWork_def
proof (rule sum_mono2)
  show "finite (set (allOps s p))" by simp
  show "{a \<in> set (allOps s p). isScheduled (opObjs s a)} \<subseteq> set (allOps s p)" by blast
next
  fix b assume "b \<in> set (allOps s p) - {a \<in> set (allOps s p). isScheduled (opObjs s a)}"
  then have "0 < processingTime (opObjs s b)"
    using assms by (auto simp: durationsPositive_def allOps_iff)
  then show "0 \<le> processingTime (opObjs s b)" by simp
qed

lemma scheduledWork_room:
  assumes dp: "durationsPositive p s" and a: "a \<in> set (allOps s p)"
    and un: "\<not> isScheduled (opObjs s a)"
  shows "scheduledWork p s + processingTime (opObjs s a) \<le> totalWork p s"
proof -
  let ?S = "{b \<in> set (allOps s p). isScheduled (opObjs s b)}"
  have "scheduledWork p s + processingTime (opObjs s a) =
        (\<Sum>b \<in> insert a ?S. processingTime (opObjs s b))"
    unfolding scheduledWork_def using un by (subst sum.insert) auto
  also have "\<dots> \<le> totalWork p s"
    unfolding totalWork_def
  proof (rule sum_mono2)
    show "finite (set (allOps s p))" by simp
    show "insert a ?S \<subseteq> set (allOps s p)" using a by blast
  next
    fix b assume "b \<in> set (allOps s p) - insert a ?S"
    then have "0 < processingTime (opObjs s b)"
      using dp by (auto simp: durationsPositive_def allOps_iff)
    then show "0 \<le> processingTime (opObjs s b)" by simp
  qed
  finally show ?thesis .
qed

lemma boundedInv_fit:
  assumes inv: "boundedInv p s" and a: "a \<in> set (allOps s p)"
    and un: "\<not> isScheduled (opObjs s a)" and lo: "0 \<le> st" and hi: "st \<le> scheduledWork p s"
  shows "int32 (st + getDuration (opObjs s a)) = st + getDuration (opObjs s a)"
proof -
  have dp: "durationsPositive p s" and tw: "totalWork p s \<le> 2147483647"
    using inv by (simp_all add: boundedInv_def)
  have d: "0 < processingTime (opObjs s a)"
    using dp a by (auto simp: durationsPositive_def allOps_iff)
  have "scheduledWork p s + processingTime (opObjs s a) \<le> totalWork p s"
    by (rule scheduledWork_room[OF dp a un])
  then have "st + processingTime (opObjs s a) \<le> 2147483647" using hi tw by linarith
  moreover have "- 2147483648 \<le> st + processingTime (opObjs s a)" using lo d by linarith
  ultimately show ?thesis unfolding getDuration_def by (intro int32_id)
qed

lemma scheduleOperation_scheduledWork:
  assumes dp: "durationsPositive p s" and a: "a \<in> set (allOps s p)"
    and un: "\<not> isScheduled (opObjs s a)"
    and fit: "int32 (st + getDuration (opObjs s a)) = st + getDuration (opObjs s a)"
  shows "scheduledWork p (scheduleOperation m a st s) =
         processingTime (opObjs s a) + scheduledWork p s"
proof -
  let ?t = "scheduleOperation m a st s"
  have d: "0 < processingTime (opObjs s a)"
    using dp a by (auto simp: durationsPositive_def allOps_iff)
  have ao: "allOps ?t p = allOps s p" by (simp add: allOps_def opsOf_scheduleOperation)
  have pt: "\<And>b. processingTime (opObjs ?t b) = processingTime (opObjs s b)"
    by (simp add: setScheduled_def)
  have sa: "isScheduled (opObjs ?t a)"
    using d by (simp add: fit) (simp add: isScheduled_def setScheduled_def getDuration_def)
  have ot: "\<And>b. b \<noteq> a \<Longrightarrow> opObjs ?t b = opObjs s b" by simp
  have sc: "{b \<in> set (allOps ?t p). isScheduled (opObjs ?t b)} =
            insert a {b \<in> set (allOps s p). isScheduled (opObjs s b)}"
  proof (intro set_eqI iffI)
    fix b assume "b \<in> {b \<in> set (allOps ?t p). isScheduled (opObjs ?t b)}"
    then show "b \<in> insert a {b \<in> set (allOps s p). isScheduled (opObjs s b)}"
      unfolding ao using ot[of b] by (cases "b = a") simp_all
  next
    fix b assume "b \<in> insert a {b \<in> set (allOps s p). isScheduled (opObjs s b)}"
    then show "b \<in> {b \<in> set (allOps ?t p). isScheduled (opObjs ?t b)}"
      unfolding ao using ot[of b] sa a by (cases "b = a") simp_all
  qed
  have "scheduledWork p ?t =
        (\<Sum>b \<in> insert a {b \<in> set (allOps s p). isScheduled (opObjs s b)}. processingTime (opObjs s b))"
    unfolding scheduledWork_def sc pt ..
  also have "\<dots> = processingTime (opObjs s a) + scheduledWork p s"
    unfolding scheduledWork_def using un by (subst sum.insert) auto
  finally show ?thesis .
qed

lemma scheduleOperation_boundedInv:
  assumes inv: "boundedInv p s" and a: "a \<in> set (allOps s p)"
    and un: "\<not> isScheduled (opObjs s a)" and m: "m \<in> set (machines p)"
    and lo: "0 \<le> st" and st: "st \<le> scheduledWork p s"
  shows "boundedInv p (scheduleOperation m a st s)"
proof -
  let ?t = "scheduleOperation m a st s"
  have dp: "durationsPositive p s" and tw: "totalWork p s \<le> 2147483647"
    using inv by (simp_all add: boundedInv_def)
  have fit: "int32 (st + getDuration (opObjs s a)) = st + getDuration (opObjs s a)"
    by (rule boundedInv_fit[OF inv a un lo st])
  have d: "0 < processingTime (opObjs s a)"
    using dp a by (auto simp: durationsPositive_def allOps_iff)
  have w: "scheduledWork p ?t = processingTime (opObjs s a) + scheduledWork p s"
    by (rule scheduleOperation_scheduledWork[OF dp a un fit])
  have ao: "allOps ?t p = allOps s p" by (simp add: allOps_def opsOf_scheduleOperation)
  have dpt: "durationsPositive p ?t"
    using dp by (auto simp: durationsPositive_def opsOf_def setScheduled_def)
  have pt: "\<And>b. processingTime (opObjs ?t b) = processingTime (opObjs s b)"
    by (simp add: setScheduled_def)
  have twt: "totalWork p ?t \<le> 2147483647" using tw by (simp only: totalWork_def ao pt)
  have mm: "\<forall>k \<in> set (machines p). availableTime (machineObjs ?t k) \<le> scheduledWork p ?t"
  proof
    fix k assume k: "k \<in> set (machines p)"
    have "availableTime (machineObjs s k) \<le> scheduledWork p s"
      using inv k by (simp add: boundedInv_def)
    then show "availableTime (machineObjs ?t k) \<le> scheduledWork p ?t"
      unfolding w using st d by (simp add: fit) (simp add: getDuration_def)
  qed
  have oo: "\<forall>b \<in> set (allOps ?t p). endTime (opObjs ?t b) \<le> scheduledWork p ?t"
  proof
    fix b assume "b \<in> set (allOps ?t p)"
    then have "endTime (opObjs s b) \<le> scheduledWork p s"
      using inv unfolding ao by (simp add: boundedInv_def)
    then show "endTime (opObjs ?t b) \<le> scheduledWork p ?t"
      unfolding w using st d by (simp add: fit) (simp add: getDuration_def setScheduled_def)
  qed
  show ?thesis unfolding boundedInv_def using dpt twt mm oo by blast
qed

lemma getMachine_mem: "getMachine p i = Some m \<Longrightarrow> m \<in> set (machines p)"
  by (auto simp: getMachine_def split: if_splits)

lemma getJob_mem: "getJob p i = Some j \<Longrightarrow> j \<in> set (jobs p)"
  by (auto simp: getJob_def split: if_splits)

lemma jobReadyTime_le:
  assumes "0 \<le> w" "\<forall>b \<in> set bs. endTime (opObjs s b) \<le> w"
  shows "jobReadyTime s op bs \<le> w"
proof -
  have "\<And>t. t \<le> w \<Longrightarrow> \<forall>b \<in> set bs. endTime (opObjs s b) \<le> w \<Longrightarrow>
     fold (\<lambda>b t. if operationId (opObjs s b) < operationId op then max t (endTime (opObjs s b)) else t) bs t \<le> w"
    by (induction bs) auto
  then show ?thesis using assms unfolding jobReadyTime_def by simp
qed

lemma boundedInv_endTimes:
  assumes "boundedInv p s" "j \<in> set (jobs p)"
  shows "\<forall>b \<in> set (opsOf s j). endTime (opObjs s b) \<le> scheduledWork p s"
  using assms by (auto simp: boundedInv_def allOps_iff)

lemma fifoVisit_start:
  assumes inv: "boundedInv p (fst st)" and j: "j \<in> set (jobs p)"
    and m: "getMachine p (Operation.machineId (opObjs (fst st) a)) = Some m"
  shows "0 \<le> max (availableTime (machineObjs (fst st) m))
                 (jobReadyTime (fst st) (opObjs (fst st) a) (opsOf (fst st) j)) \<and>
         max (availableTime (machineObjs (fst st) m))
             (jobReadyTime (fst st) (opObjs (fst st) a) (opsOf (fst st) j))
           \<le> scheduledWork p (fst st)"
proof -
  let ?s = "fst st"
  have dp: "durationsPositive p ?s" using inv by (simp add: boundedInv_def)
  have w0: "0 \<le> scheduledWork p ?s" by (rule scheduledWork_nonneg[OF dp])
  have jr: "jobReadyTime ?s (opObjs ?s a) (opsOf ?s j) \<le> scheduledWork p ?s"
    by (rule jobReadyTime_le[OF w0 boundedInv_endTimes[OF inv j]])
  have "m \<in> set (machines p)" by (rule getMachine_mem[OF m])
  then have av: "availableTime (machineObjs ?s m) \<le> scheduledWork p ?s"
    using inv by (simp add: boundedInv_def)
  have "0 \<le> jobReadyTime ?s (opObjs ?s a) (opsOf ?s j)" by (rule jobReadyTime_nonneg)
  then show ?thesis using av jr by simp
qed

lemma priorityVisit_start:
  assumes inv: "boundedInv p (fst st)"
    and m: "getMachine p (Operation.machineId (opObjs (fst st) a)) = Some m"
  shows "0 \<le> max (availableTime (machineObjs (fst st) m))
                 (case getJob p (Operation.jobId (opObjs (fst st) a)) of None \<Rightarrow> 0
                  | Some j \<Rightarrow> jobReadyTime (fst st) (opObjs (fst st) a) (opsOf (fst st) j)) \<and>
         max (availableTime (machineObjs (fst st) m))
             (case getJob p (Operation.jobId (opObjs (fst st) a)) of None \<Rightarrow> 0
              | Some j \<Rightarrow> jobReadyTime (fst st) (opObjs (fst st) a) (opsOf (fst st) j))
           \<le> scheduledWork p (fst st)"
proof -
  let ?s = "fst st"
  let ?jr = "case getJob p (Operation.jobId (opObjs ?s a)) of None \<Rightarrow> 0
             | Some j \<Rightarrow> jobReadyTime ?s (opObjs ?s a) (opsOf ?s j)"
  have dp: "durationsPositive p ?s" using inv by (simp add: boundedInv_def)
  have w0: "0 \<le> scheduledWork p ?s" by (rule scheduledWork_nonneg[OF dp])
  have jr: "?jr \<le> scheduledWork p ?s"
  proof (cases "getJob p (Operation.jobId (opObjs ?s a))")
    case None then show ?thesis using w0 by simp
  next
    case (Some j)
    have "jobReadyTime ?s (opObjs ?s a) (opsOf ?s j) \<le> scheduledWork p ?s"
      by (rule jobReadyTime_le[OF w0 boundedInv_endTimes[OF inv getJob_mem[OF Some]]])
    then show ?thesis using Some by simp
  qed
  have j0: "0 \<le> ?jr" by (simp add: jobReadyTime_nonneg split: option.split)
  have "m \<in> set (machines p)" by (rule getMachine_mem[OF m])
  then have av: "availableTime (machineObjs ?s m) \<le> scheduledWork p ?s"
    using inv by (simp add: boundedInv_def)
  show ?thesis using av jr j0 by simp
qed

lemma fifoVisit_boundedInv:
  assumes inv: "boundedInv p (fst st)" and j: "j \<in> set (jobs p)" and a: "a \<in> set (opsOf (fst st) j)"
  shows "boundedInv p (fst (fifoVisit p j a st))"
proof (cases rule: fifoVisit_cases[of p j a st])
  case skip then show ?thesis using inv by simp
next
  case (commit m)
  have mm: "m \<in> set (machines p)" by (rule getMachine_mem[OF commit(2)])
  have ao: "a \<in> set (allOps (fst st) p)" using j a by (auto simp: allOps_iff)
  show ?thesis unfolding commit(4) fst_conv
    using fifoVisit_start[OF inv j commit(2)]
    by (intro scheduleOperation_boundedInv[OF inv ao commit(1) mm]) simp_all
qed

lemma priorityVisit_boundedInv:
  assumes inv: "boundedInv p (fst st)" and ao: "a \<in> set (allOps (fst st) p)"
  shows "boundedInv p (fst (priorityVisit p a st))"
proof (cases rule: priorityVisit_cases[of p a st])
  case skip then show ?thesis using inv by simp
next
  case (commit m)
  have mm: "m \<in> set (machines p)" by (rule getMachine_mem[OF commit(2)])
  show ?thesis unfolding commit(3) fst_conv
    using priorityVisit_start[OF inv commit(2)]
    by (intro scheduleOperation_boundedInv[OF inv ao commit(1) mm]) simp_all
qed

lemma sameShape_totalWork: "sameShape s t \<Longrightarrow> totalWork p t = totalWork p s"
proof -
  assume sh: "sameShape s t"
  have oo: "opsOf t = opsOf s" by (rule ext) (rule sameShape_opsOf[OF sh])
  have pt: "\<And>a. processingTime (opObjs t a) = processingTime (opObjs s a)"
    using sh by (simp add: sameShape_def sameStatic_def)
  show ?thesis by (simp add: totalWork_def allOps_def oo pt)
qed

lemma initialStore_boundedInv:
  assumes "durationsPositive p s" "totalWork p s \<le> 2147483647"
  shows "boundedInv p (initialStore p s)"
proof -
  let ?s0 = "initialStore p s"
  have dp: "durationsPositive p ?s0"
    using assms(1) sameShape_durationsPositive[OF initialStore_sameShape] by simp
  have sh: "sameShape s ?s0" by (rule initialStore_sameShape)
  have tw: "totalWork p ?s0 \<le> 2147483647"
    using assms(2) sameShape_totalWork[OF sh] by simp
  have un: "\<And>a. a \<in> set (allOps ?s0 p) \<Longrightarrow> cleared ?s0 a"
  proof -
    fix a assume "a \<in> set (allOps ?s0 p)"
    then obtain j where j: "j \<in> set (jobs p)" and a: "a \<in> set (opsOf ?s0 j)"
      by (auto simp: allOps_iff)
    have "a \<in> set (opsOf (resetMachines p s) j)"
      using a sameShape_opsOf[OF initialStore_sameShape[of s p]]
        sameShape_opsOf[OF resetMachines_sameShape[of s p]] by simp
    from clearOperations_cleared[OF j this] show "cleared ?s0 a" by (simp add: initialStore_def)
  qed
  have "{a \<in> set (allOps ?s0 p). isScheduled (opObjs ?s0 a)} = {}"
    using un by (auto simp: cleared_def isScheduled_def)
  then have w: "scheduledWork p ?s0 = 0" unfolding scheduledWork_def by (simp only: sum.empty)
  have mo: "machineObjs ?s0 = machineObjs (resetMachines p s)"
    unfolding initialStore_def using clearOperations_frame by blast
  have av: "\<forall>m \<in> set (machines p). availableTime (machineObjs ?s0 m) \<le> 0"
  proof
    fix m assume m: "m \<in> set (machines p)"
    show "availableTime (machineObjs ?s0 m) \<le> 0"
      unfolding mo using resetMachines_reset[OF m, of s] by simp
  qed
  show ?thesis unfolding boundedInv_def w using dp tw av un by (auto simp: cleared_def)
qed

lemma fifoRound_boundedInv:
  assumes "boundedInv p s"
  shows "boundedInv p (fst (fifoRound p s))"
proof -
  have "boundedInv p (fst (fifoRound p s)) \<and> evolves s (fst (fifoRound p s))"
  proof (rule fifoRound_invariant)
    show "boundedInv p s" by (rule assms)
  next
    fix j a and st :: "Store \<times> bool"
    assume h: "j \<in> set (jobs p)" "a \<in> set (opsOf s j)" "evolves s (fst st)" "boundedInv p (fst st)"
    have "a \<in> set (opsOf (fst st) j)" using h(2) evolves_opsOf[OF h(3)] by simp
    then show "boundedInv p (fst (fifoVisit p j a st))"
      by (rule fifoVisit_boundedInv[OF h(4) h(1)])
  qed
  then show ?thesis by simp
qed

lemma priorityRound_boundedInv:
  assumes "std_sort sortf" "comparatorOK compare" "boundedInv p s"
  shows "boundedInv p (fst (priorityRound sortf compare p s))"
proof -
  have "boundedInv p (fst (priorityRound sortf compare p s)) \<and>
        evolves s (fst (priorityRound sortf compare p s))"
  proof (rule priorityRound_invariant[OF _ assms(1,2)])
    show "boundedInv p s" by (rule assms)
  next
    fix a and st :: "Store \<times> bool"
    assume h: "a \<in> set (readyOperations p s)" "evolves s (fst st)" "boundedInv p (fst st)"
    have "a \<in> set (allOps s p)" using h(1) readyOperations_subset_allOps by blast
    then have "a \<in> set (allOps (fst st) p)"
      using evolves_opsOf[OF h(2)] by (simp add: allOps_iff)
    then show "boundedInv p (fst (priorityVisit p a st))"
      by (rule priorityVisit_boundedInv[OF h(3)])
  qed
  then show ?thesis by simp
qed

lemma boundedInv_cerr [simp]: "boundedInv p (s\<lparr>cerr := c\<rparr>) = boundedInv p s"
  by (simp add: boundedInv_def durationsPositive_def scheduledWork_def totalWork_def allOps_def opsOf_def)

lemma fifoVisit_machineInv:
  assumes mi: "machineInv p (fst st)" and inv: "boundedInv p (fst st)"
    and j: "j \<in> set (jobs p)" and a: "a \<in> set (opsOf (fst st) j)"
  shows "machineInv p (fst (fifoVisit p j a st))"
proof (cases rule: fifoVisit_cases[of p j a st])
  case skip then show ?thesis using mi by simp
next
  case (commit m)
  have ao: "a \<in> set (allOps (fst st) p)" using j a by (auto simp: allOps_iff)
  have pos: "0 < processingTime (opObjs (fst st) a)"
    using inv j a by (auto simp: boundedInv_def durationsPositive_def)
  note se = fifoVisit_start[OF inv j commit(2)]
  have fit: "int32 (max (availableTime (machineObjs (fst st) m))
                        (jobReadyTime (fst st) (opObjs (fst st) a) (opsOf (fst st) j)) +
                    getDuration (opObjs (fst st) a)) =
             max (availableTime (machineObjs (fst st) m))
                 (jobReadyTime (fst st) (opObjs (fst st) a) (opsOf (fst st) j)) +
             getDuration (opObjs (fst st) a)"
    by (rule boundedInv_fit[OF inv ao commit(1)]) (use se in simp_all)
  show ?thesis unfolding commit(4) fst_conv
    by (rule scheduleOperation_machineInv[OF mi commit(1) pos _ fit]) simp
qed

lemma priorityVisit_machineInv:
  assumes mi: "machineInv p (fst st)" and inv: "boundedInv p (fst st)"
    and ao: "a \<in> set (allOps (fst st) p)"
  shows "machineInv p (fst (priorityVisit p a st))"
proof (cases rule: priorityVisit_cases[of p a st])
  case skip then show ?thesis using mi by simp
next
  case (commit m)
  have pos: "0 < processingTime (opObjs (fst st) a)"
    using inv ao by (auto simp: boundedInv_def durationsPositive_def allOps_iff)
  note se = priorityVisit_start[OF inv commit(2)]
  have fit: "int32 (max (availableTime (machineObjs (fst st) m))
                 (case getJob p (Operation.jobId (opObjs (fst st) a)) of None \<Rightarrow> 0
                  | Some j \<Rightarrow> jobReadyTime (fst st) (opObjs (fst st) a) (opsOf (fst st) j)) +
                    getDuration (opObjs (fst st) a)) =
             max (availableTime (machineObjs (fst st) m))
                 (case getJob p (Operation.jobId (opObjs (fst st) a)) of None \<Rightarrow> 0
                  | Some j \<Rightarrow> jobReadyTime (fst st) (opObjs (fst st) a) (opsOf (fst st) j)) +
             getDuration (opObjs (fst st) a)"
    by (rule boundedInv_fit[OF inv ao commit(1)]) (use se in simp_all)
  show ?thesis unfolding commit(3) fst_conv
    by (rule scheduleOperation_machineInv[OF mi commit(1) pos _ fit]) simp
qed

lemma fifo_machineInv:
  assumes "durationsPositive p s" "totalWork p s \<le> 2147483647"
  shows "machineInv p (scheduleFIFO p s)"
proof -
  let ?s0 = "initialStore p s"
  have round: "\<And>t. boundedInv p t \<and> machineInv p t \<Longrightarrow>
        boundedInv p (fst (fifoRound p t)) \<and> machineInv p (fst (fifoRound p t))"
  proof -
    fix t assume t: "boundedInv p t \<and> machineInv p t"
    have "(boundedInv p (fst (fifoRound p t)) \<and> machineInv p (fst (fifoRound p t))) \<and>
          evolves t (fst (fifoRound p t))"
    proof (rule fifoRound_invariant[where I="\<lambda>u. boundedInv p u \<and> machineInv p u"])
      show "boundedInv p t \<and> machineInv p t" by (rule t)
    next
      fix j a and st :: "Store \<times> bool"
      assume h: "j \<in> set (jobs p)" "a \<in> set (opsOf t j)" "evolves t (fst st)"
        "boundedInv p (fst st) \<and> machineInv p (fst st)"
      have a': "a \<in> set (opsOf (fst st) j)" using h(2) evolves_opsOf[OF h(3)] by simp
      show "boundedInv p (fst (fifoVisit p j a st)) \<and> machineInv p (fst (fifoVisit p j a st))"
        using fifoVisit_boundedInv[OF _ h(1) a'] fifoVisit_machineInv[OF _ _ h(1) a'] h(4)
        by blast
    qed
    then show "boundedInv p (fst (fifoRound p t)) \<and> machineInv p (fst (fifoRound p t))" by simp
  qed
  have "boundedInv p (fst (fifoLoop p (?s0, True, 0))) \<and>
        machineInv p (fst (fifoLoop p (?s0, True, 0)))"
  proof (rule fifoLoop_invariant[where I="\<lambda>u. boundedInv p u \<and> machineInv p u"])
    show "boundedInv p (fst (?s0, True, 0::int)) \<and> machineInv p (fst (?s0, True, 0::int))"
      using initialStore_machineInv initialStore_boundedInv[OF assms] by simp
  qed (rule round)
  then show ?thesis using scheduleFIFO_eq[of p s] by auto
qed

lemma priority_machineInv:
  assumes ss: "std_sort sortf" and co: "comparatorOK compare" and bi: "boundedInv p s0"
    and inv: "machineInv p s0"
  shows "machineInv p (scheduleWithPriority sortf p compare s0)"
proof -
  have round: "\<And>t. boundedInv p t \<and> machineInv p t \<Longrightarrow>
        boundedInv p (fst (priorityRound sortf compare p t)) \<and>
        machineInv p (fst (priorityRound sortf compare p t))"
  proof -
    fix t assume t: "boundedInv p t \<and> machineInv p t"
    have "(boundedInv p (fst (priorityRound sortf compare p t)) \<and>
           machineInv p (fst (priorityRound sortf compare p t))) \<and>
          evolves t (fst (priorityRound sortf compare p t))"
    proof (rule priorityRound_invariant[where I="\<lambda>u. boundedInv p u \<and> machineInv p u", OF _ ss co])
      show "boundedInv p t \<and> machineInv p t" by (rule t)
    next
      fix a and st :: "Store \<times> bool"
      assume h: "a \<in> set (readyOperations p t)" "evolves t (fst st)"
        "boundedInv p (fst st) \<and> machineInv p (fst st)"
      have "a \<in> set (allOps t p)" using h(1) readyOperations_subset_allOps by blast
      then have ao: "a \<in> set (allOps (fst st) p)"
        using evolves_opsOf[OF h(2)] by (simp add: allOps_iff)
      show "boundedInv p (fst (priorityVisit p a st)) \<and> machineInv p (fst (priorityVisit p a st))"
        using priorityVisit_boundedInv[OF _ ao] priorityVisit_machineInv[OF _ _ ao] h(3) by blast
    qed
    then show "boundedInv p (fst (priorityRound sortf compare p t)) \<and>
        machineInv p (fst (priorityRound sortf compare p t))" by simp
  qed
  have "boundedInv p (fst (priorityLoop sortf compare p (s0, True, 0))) \<and>
        machineInv p (fst (priorityLoop sortf compare p (s0, True, 0)))"
  proof (rule priorityLoop_invariant[where I="\<lambda>u. boundedInv p u \<and> machineInv p u"])
    show "boundedInv p (fst (s0, True, 0::int)) \<and> machineInv p (fst (s0, True, 0::int))"
      using bi inv by simp
  qed (rule round)
  then show ?thesis by (simp add: scheduleWithPriority_def)
qed

lemma algorithm_distinct [simp]:
  "FIFO \<noteq> SPT" "FIFO \<noteq> LPT" "SPT \<noteq> LPT" "SPT \<noteq> FIFO" "LPT \<noteq> FIFO" "LPT \<noteq> SPT"
  by (simp_all add: FIFO_def SPT_def LPT_def)

lemma schedule_known [simp]:
  "schedule sortf FIFO p s = Inr (scheduleFIFO p s)"
  "schedule sortf SPT p s = Inr (scheduleSPT sortf p s)"
  "schedule sortf LPT p s = Inr (scheduleLPT sortf p s)"
  by (simp_all add: schedule_def)

lemma schedule_unknown:
  "algorithm \<noteq> FIFO \<Longrightarrow> algorithm \<noteq> SPT \<Longrightarrow> algorithm \<noteq> LPT \<Longrightarrow>
   schedule sortf algorithm p s = Inl (runtime_error ''Unknown algorithm'')"
  by (simp add: schedule_def)

lemma schedule_cases:
  assumes "schedule sortf algorithm p s = Inr s'"
  obtains (FIFO) "algorithm = FIFO" "s' = scheduleFIFO p s"
  | (SPT) "algorithm = SPT" "s' = scheduleSPT sortf p s"
  | (LPT) "algorithm = LPT" "s' = scheduleLPT sortf p s"
  using assms unfolding schedule_def by (auto split: if_splits)

lemma schedule_precedenceInv:
  assumes "std_sort sortf" "opsNotShared p s" "algorithm \<noteq> FIFO \<longrightarrow> jobIdsConsistent p s"
    and "schedule sortf algorithm p s = Inr s'"
  shows "precedenceInv p s'"
  using assms(4)
proof (cases rule: schedule_cases)
  case FIFO
  then show ?thesis using fifo_precedenceInv[OF assms(2)] by simp
next
  case SPT
  then have "jobIdsConsistent p (initialStore p s)"
    using assms(3) sameShape_jobIdsConsistent[OF initialStore_sameShape] by simp
  then show ?thesis using SPT
      priority_precedenceInv[OF assms(1) sptCompare_OK _ initialStore_precedenceInv]
    by (simp add: scheduleSPT_def initialStore_def)
next
  case LPT
  then have "jobIdsConsistent p (initialStore p s)"
    using assms(3) sameShape_jobIdsConsistent[OF initialStore_sameShape] by simp
  then show ?thesis using LPT
      priority_precedenceInv[OF assms(1) lptCompare_OK _ initialStore_precedenceInv]
    by (simp add: scheduleLPT_def initialStore_def)
qed

lemma schedule_machineInv:
  assumes "std_sort sortf" "durationsPositive p s" "totalWork p s \<le> 2147483647"
    and "schedule sortf algorithm p s = Inr s'"
  shows "machineInv p s'"
proof -
  have bi: "boundedInv p (initialStore p s)" by (rule initialStore_boundedInv[OF assms(2,3)])
  from assms(4) show ?thesis
  proof (cases rule: schedule_cases)
    case FIFO
    then show ?thesis using fifo_machineInv[OF assms(2,3)] by simp
  next
    case SPT
    then show ?thesis
      using priority_machineInv[OF assms(1) sptCompare_OK bi initialStore_machineInv]
      by (simp add: scheduleSPT_def initialStore_def)
  next
    case LPT
    then show ?thesis
      using priority_machineInv[OF assms(1) lptCompare_OK bi initialStore_machineInv]
      by (simp add: scheduleLPT_def initialStore_def)
  qed
qed

lemma allScheduled_count: "allScheduled p s \<longleftrightarrow> (\<forall>j \<in> set (jobs p). unscheduledCount s j = 0)"
  by (auto simp: allScheduled_def unscheduledCount_def filter_empty_conv)

lemma unscheduledCount_mono:
  assumes "evolves s t"
  shows "unscheduledCount t j \<le> unscheduledCount s j"
proof -
  have "filter (\<lambda>a. \<not> isScheduled (opObjs t a)) (opsOf s j) =
        filter (\<lambda>a. \<not> isScheduled (opObjs t a)) (filter (\<lambda>a. \<not> isScheduled (opObjs s a)) (opsOf s j))"
    using evolves_sched[OF assms] by (auto simp: filter_filter intro: filter_cong)
  then show ?thesis unfolding unscheduledCount_def evolves_opsOf[OF assms]
    by (metis length_filter_le)
qed

lemma unscheduledCount_less:
  assumes "evolves s t" "b \<in> set (opsOf s j)" "\<not> isScheduled (opObjs s b)" "isScheduled (opObjs t b)"
  shows "unscheduledCount t j < unscheduledCount s j"
proof -
  have "filter (\<lambda>a. \<not> isScheduled (opObjs t a)) (opsOf s j) =
        filter (\<lambda>a. \<not> isScheduled (opObjs t a)) (filter (\<lambda>a. \<not> isScheduled (opObjs s a)) (opsOf s j))"
    using evolves_sched[OF assms(1)] by (auto simp: filter_filter intro: filter_cong)
  moreover have "b \<in> set (filter (\<lambda>a. \<not> isScheduled (opObjs s a)) (opsOf s j))" using assms(2,3) by simp
  ultimately show ?thesis unfolding unscheduledCount_def evolves_opsOf[OF assms(1)]
    using assms(4) by (metis length_filter_less)
qed

lemma least_unscheduled_ready:
  assumes "unscheduledCount s j \<noteq> 0"
  shows "\<exists>b \<in> set (opsOf s j). \<not> isScheduled (opObjs s b) \<and>
           allPrevOpsCompleted s (opObjs s b) (opsOf s j)"
proof -
  let ?S = "{a \<in> set (opsOf s j). \<not> isScheduled (opObjs s a)}"
  let ?ids = "(\<lambda>a. operationId (opObjs s a)) ` ?S"
  have ne: "?S \<noteq> {}" using assms by (auto simp: unscheduledCount_def filter_empty_conv)
  then have "Min ?ids \<in> ?ids" by (intro Min_in) auto
  then obtain b where b: "b \<in> ?S" "operationId (opObjs s b) = Min ?ids" by auto
  have "\<forall>a \<in> ?S. operationId (opObjs s b) \<le> operationId (opObjs s a)"
    unfolding b(2) by (auto intro!: Min_le)
  then have "allPrevOpsCompleted s (opObjs s b) (opsOf s j)"
    unfolding allPrevOpsCompleted_iff by fastforce
  then show ?thesis using b(1) by blast
qed

lemma roundProgress_count:
  assumes "roundProgress p s r" "j \<in> set (jobs p)"
  shows "unscheduledCount (fst r) j \<le> unscheduledCount s j"
    and "unscheduledCount s j \<noteq> 0 \<Longrightarrow> unscheduledCount (fst r) j < unscheduledCount s j"
proof -
  have ev: "evolves s (fst r)" using assms(1) by (simp add: roundProgress_def)
  show "unscheduledCount (fst r) j \<le> unscheduledCount s j" by (rule unscheduledCount_mono[OF ev])
  assume "unscheduledCount s j \<noteq> 0"
  from least_unscheduled_ready[OF this] obtain b where b: "b \<in> set (opsOf s j)"
    "\<not> isScheduled (opObjs s b)" "allPrevOpsCompleted s (opObjs s b) (opsOf s j)" by blast
  then have "isScheduled (opObjs (fst r) b)" using assms unfolding roundProgress_def by blast
  then show "unscheduledCount (fst r) j < unscheduledCount s j"
    using unscheduledCount_less[OF ev b(1,2)] by simp
qed

lemma loopInv_step:
  assumes "loopInv p s0 (s, f, i)" "roundProgress p s r"
  shows "loopInv p s0 (fst r, snd r, i + 1)"
proof -
  have ev: "evolves s0 s" and cnt: "\<forall>j \<in> set (jobs p). int (unscheduledCount s j) \<le> max 0 (999 - i)"
    using assms(1) by (auto simp: loopInv_def)
  have ev': "evolves s0 (fst r)" using ev assms(2) evolves_trans unfolding roundProgress_def by blast
  have cnt': "\<forall>j \<in> set (jobs p). int (unscheduledCount (fst r) j) \<le> max 0 (999 - (i + 1))"
  proof
    fix j assume j: "j \<in> set (jobs p)"
    show "int (unscheduledCount (fst r) j) \<le> max 0 (999 - (i + 1))"
    proof (cases "unscheduledCount s j = 0")
      case True
      then show ?thesis using roundProgress_count(1)[OF assms(2) j] by simp
    next
      case False
      then show ?thesis using roundProgress_count(2)[OF assms(2) j] cnt j by fastforce
    qed
  qed
  have "\<not> snd r \<longrightarrow> allScheduled p (fst r)"
  proof
    assume "\<not> snd r"
    then have eq: "fst r = s" using assms(2) by (simp add: roundProgress_def)
    show "allScheduled p (fst r)" unfolding allScheduled_count
    proof
      fix j assume "j \<in> set (jobs p)"
      from roundProgress_count(2)[OF assms(2) this] eq
      show "unscheduledCount (fst r) j = 0" by auto
    qed
  qed
  then show ?thesis using ev' cnt' by (simp add: loopInv_def)
qed

lemma loopInv_exit:
  assumes "loopInv p s0 (s, f, i)" "\<not> (f \<and> i < 1000)"
  shows "allScheduled p s"
proof (cases f)
  case False then show ?thesis using assms(1) by (simp add: loopInv_def)
next
  case True
  then have "1000 \<le> i" using assms(2) by simp
  then have "\<forall>j \<in> set (jobs p). unscheduledCount s j = 0"
    using assms(1) by (fastforce simp: loopInv_def)
  then show ?thesis by (simp add: allScheduled_count)
qed

lemma loopInv_init:
  assumes "\<forall>j \<in> set (jobs p). length (opsOf s j) \<le> 999"
  shows "loopInv p s (s, True, 0)"
proof -
  have "\<forall>j \<in> set (jobs p). unscheduledCount s j \<le> length (opsOf s j)"
    by (simp add: unscheduledCount_def)
  then show ?thesis using assms by (fastforce simp: loopInv_def)
qed

lemma machineIdsValid_getMachine:
  assumes "machineIdsValid p s" "j \<in> set (jobs p)" "b \<in> set (opsOf s j)"
  shows "getMachine p (Operation.machineId (opObjs s b)) \<noteq> None"
  using assms unfolding machineIdsValid_def getMachine_def by auto

lemma scheduleOperation_scheduled:
  assumes "0 < processingTime (opObjs s b)"
    and "int32 (st + getDuration (opObjs s b)) = st + getDuration (opObjs s b)"
  shows "isScheduled (opObjs (scheduleOperation m b st s) b)"
  using assms(1) by (simp add: assms(2)) (simp add: isScheduled_def setScheduled_def getDuration_def)

lemma fifoVisit_schedules:
  assumes mc: "getMachine p (Operation.machineId (opObjs (fst st) b)) \<noteq> None"
    and rdy: "allPrevOpsCompleted (fst st) (opObjs (fst st) b) (opsOf (fst st) j)"
    and inv: "boundedInv p (fst st)" and j: "j \<in> set (jobs p)" and b: "b \<in> set (opsOf (fst st) j)"
  shows "isScheduled (opObjs (fst (fifoVisit p j b st)) b)"
proof (cases "isScheduled (opObjs (fst st) b)")
  case True
  then show ?thesis using evolves_sched[OF fifoVisit_evolves] by blast
next
  case False
  from mc obtain m where m: "getMachine p (Operation.machineId (opObjs (fst st) b)) = Some m"
    by blast
  let ?start = "max (availableTime (machineObjs (fst st) m))
                    (jobReadyTime (fst st) (opObjs (fst st) b) (opsOf (fst st) j))"
  have eq: "fifoVisit p j b st = (scheduleOperation m b ?start (fst st), True)"
    using False m rdy by (cases st) (simp add: fifoVisit_def opsOf_def Let_def)
  have ao: "b \<in> set (allOps (fst st) p)" using j b by (auto simp: allOps_iff)
  have pos: "0 < processingTime (opObjs (fst st) b)"
    using inv j b by (auto simp: boundedInv_def durationsPositive_def)
  have fit: "int32 (?start + getDuration (opObjs (fst st) b)) = ?start + getDuration (opObjs (fst st) b)"
    by (rule boundedInv_fit[OF inv ao False]) (use fifoVisit_start[OF inv j m] in simp_all)
  show ?thesis unfolding eq fst_conv by (rule scheduleOperation_scheduled[OF pos fit])
qed

lemma priorityVisit_schedules:
  assumes mc: "getMachine p (Operation.machineId (opObjs (fst st) b)) \<noteq> None"
    and inv: "boundedInv p (fst st)" and ao: "b \<in> set (allOps (fst st) p)"
  shows "isScheduled (opObjs (fst (priorityVisit p b st)) b)"
proof (cases "isScheduled (opObjs (fst st) b)")
  case True
  then show ?thesis using evolves_sched[OF priorityVisit_evolves] by blast
next
  case False
  from mc obtain m where m: "getMachine p (Operation.machineId (opObjs (fst st) b)) = Some m"
    by blast
  let ?start = "max (availableTime (machineObjs (fst st) m))
                 (case getJob p (Operation.jobId (opObjs (fst st) b)) of None \<Rightarrow> 0
                  | Some j \<Rightarrow> jobReadyTime (fst st) (opObjs (fst st) b) (opsOf (fst st) j))"
  have eq: "priorityVisit p b st = (scheduleOperation m b ?start (fst st), True)"
    using False m by (cases st) (auto simp: priorityVisit_def opsOf_def Let_def split: option.splits)
  have pos: "0 < processingTime (opObjs (fst st) b)"
    using inv ao by (auto simp: boundedInv_def durationsPositive_def allOps_iff)
  have fit: "int32 (?start + getDuration (opObjs (fst st) b)) = ?start + getDuration (opObjs (fst st) b)"
    by (rule boundedInv_fit[OF inv ao False]) (use priorityVisit_start[OF inv m] in simp_all)
  show ?thesis unfolding eq fst_conv by (rule scheduleOperation_scheduled[OF pos fit])
qed

lemma fifoVisit_flag:
  "(\<not> snd st \<longrightarrow> fst st = s) \<Longrightarrow> (\<not> snd (fifoVisit p j a st) \<longrightarrow> fst (fifoVisit p j a st) = s)"
  by (cases rule: fifoVisit_cases[of p j a st]) auto

lemma priorityVisit_flag:
  "(\<not> snd st \<longrightarrow> fst st = s) \<Longrightarrow> (\<not> snd (priorityVisit p a st) \<longrightarrow> fst (priorityVisit p a st) = s)"
  by (cases rule: priorityVisit_cases[of p a st]) auto

lemma fifoRound_flag: "\<not> snd (fifoRound p s) \<longrightarrow> fst (fifoRound p s) = s"
  unfolding fifoRound_def
proof (rule fold_invariant[where I="\<lambda>st. \<not> snd st \<longrightarrow> fst st = s"])
  show "\<not> snd (s, False) \<longrightarrow> fst (s, False) = s" by simp
next
  fix j and st :: "Store \<times> bool" assume "\<not> snd st \<longrightarrow> fst st = s"
  then show "\<not> snd (fifoJob p j st) \<longrightarrow> fst (fifoJob p j st) = s"
    unfolding fifoJob_def
  proof (rule fold_invariant[where I="\<lambda>st. \<not> snd st \<longrightarrow> fst st = s"])
    fix a and st :: "Store \<times> bool" assume "\<not> snd st \<longrightarrow> fst st = s"
    then show "\<not> snd (fifoVisit p j a st) \<longrightarrow> fst (fifoVisit p j a st) = s"
      by (rule fifoVisit_flag)
  qed
qed

lemma priorityRound_flag:
  "\<not> snd (priorityRound sortf compare p s) \<longrightarrow> fst (priorityRound sortf compare p s) = s"
  unfolding priorityRound_def
proof (rule fold_invariant[where I="\<lambda>st. \<not> snd st \<longrightarrow> fst st = s"])
  show "\<not> snd (s, False) \<longrightarrow> fst (s, False) = s" by simp
next
  fix a and st :: "Store \<times> bool" assume "\<not> snd st \<longrightarrow> fst st = s"
  then show "\<not> snd (priorityVisit p a st) \<longrightarrow> fst (priorityVisit p a st) = s"
    by (rule priorityVisit_flag)
qed

lemma fifoJob_evolves:
  assumes "evolves s (fst (st :: Store \<times> bool))"
  shows "evolves s (fst (fifoJob p j st))"
  using fifoJob_invariant[where I="\<lambda>_. True" and s=s and st=st and p=p and j=j] assms by simp

lemma fifoRound_evolves: "evolves s (fst (fifoRound p s))"
  using fifoRound_invariant[where I="\<lambda>_. True" and s=s and p=p] by simp

lemma priorityRound_evolves: "evolves s (fst (priorityRound sortf compare p s))"
  unfolding priorityRound_def
proof (rule fold_invariant[where I="\<lambda>st. evolves s (fst st)"])
  show "evolves s (fst (s, False))" by simp
next
  fix a and st :: "Store \<times> bool" assume "evolves s (fst st)"
  then show "evolves s (fst (priorityVisit p a st))"
    using evolves_trans[OF _ priorityVisit_evolves] by blast
qed

lemma fifoJob_boundedInv:
  assumes "boundedInv p (fst st)" "evolves s (fst st)" "j \<in> set (jobs p)"
  shows "boundedInv p (fst (fifoJob p j st))"
proof -
  have "boundedInv p (fst (fifoJob p j st)) \<and> evolves s (fst (fifoJob p j st))"
  proof (rule fifoJob_invariant[where I="boundedInv p"])
    fix a and u :: "Store \<times> bool"
    assume h: "a \<in> set (opsOf s j)" "evolves s (fst u)" "boundedInv p (fst u)"
    have "a \<in> set (opsOf (fst u) j)" using h(1) evolves_opsOf[OF h(2)] by simp
    then show "boundedInv p (fst (fifoVisit p j a u))"
      by (rule fifoVisit_boundedInv[OF h(3) assms(3)])
  qed (use assms in simp_all)
  then show ?thesis by simp
qed

lemma fifoRound_reaches:
  assumes mv: "machineIdsValid p s" and inv: "boundedInv p s"
    and j: "j \<in> set (jobs p)" and b: "b \<in> set (opsOf s j)"
    and rdy: "allPrevOpsCompleted s (opObjs s b) (opsOf s j)"
  shows "isScheduled (opObjs (fst (fifoRound p s)) b)"
  unfolding fifoRound_def
proof (rule fold_reach[where I="\<lambda>st. evolves s (fst st) \<and> boundedInv p (fst st)" and x=j])
  show "j \<in> set (jobs p)" by (rule j)
  show "evolves s (fst (s, False)) \<and> boundedInv p (fst (s, False))" using inv by simp
next
  fix k and st :: "Store \<times> bool"
  assume "k \<in> set (jobs p)" "evolves s (fst st) \<and> boundedInv p (fst st)"
  then show "evolves s (fst (fifoJob p k st)) \<and> boundedInv p (fst (fifoJob p k st))"
    using fifoJob_evolves fifoJob_boundedInv by blast
next
  fix k and st :: "Store \<times> bool" assume "isScheduled (opObjs (fst st) b)"
  then show "isScheduled (opObjs (fst (fifoJob p k st)) b)"
    using fifoJob_evolves[of "fst st" st p k] evolves_sched by auto
next
  fix st :: "Store \<times> bool" assume ev: "evolves s (fst st) \<and> boundedInv p (fst st)"
  have ops: "operations (jobObjs (fst st) j) = opsOf s j"
    using evolves_opsOf[of s "fst st" j] ev by (simp add: opsOf_def)
  show "isScheduled (opObjs (fst (fifoJob p j st)) b)"
    unfolding fifoJob_def ops
  proof (rule fold_reach[where I="\<lambda>st. evolves s (fst st) \<and> boundedInv p (fst st)" and x=b])
    show "b \<in> set (opsOf s j)" by (rule b)
    show "evolves s (fst st) \<and> boundedInv p (fst st)" by (rule ev)
  next
    fix a and st :: "Store \<times> bool"
    assume a: "a \<in> set (opsOf s j)" and h: "evolves s (fst st) \<and> boundedInv p (fst st)"
    have "a \<in> set (opsOf (fst st) j)" using a h evolves_opsOf[of s "fst st" j] by simp
    then have "boundedInv p (fst (fifoVisit p j a st))"
      using fifoVisit_boundedInv[OF _ j] h by blast
    then show "evolves s (fst (fifoVisit p j a st)) \<and> boundedInv p (fst (fifoVisit p j a st))"
      using h evolves_trans[OF _ fifoVisit_evolves] by blast
  next
    fix a and st :: "Store \<times> bool" assume "isScheduled (opObjs (fst st) b)"
    then show "isScheduled (opObjs (fst (fifoVisit p j a st)) b)"
      using evolves_sched[OF fifoVisit_evolves] by blast
  next
    fix st :: "Store \<times> bool" assume h: "evolves s (fst st) \<and> boundedInv p (fst st)"
    then have e: "evolves s (fst st)" and bi: "boundedInv p (fst st)" by simp_all
    have sh: "sameShape s (fst st)" by (rule evolves_sameShape[OF e])
    have bj: "b \<in> set (opsOf (fst st) j)" using b evolves_opsOf[OF e] by simp
    have "getMachine p (Operation.machineId (opObjs (fst st) b)) \<noteq> None"
      using machineIdsValid_getMachine[OF _ j bj] mv sameShape_machineIdsValid[OF sh] by simp
    moreover have "allPrevOpsCompleted (fst st) (opObjs (fst st) b) (opsOf (fst st) j)"
      using allPrevOpsCompleted_evolves[OF e rdy] evolves_opsOf[OF e] by simp
    ultimately show "isScheduled (opObjs (fst (fifoVisit p j b st)) b)"
      using bi j bj by (rule fifoVisit_schedules)
  qed
qed

lemma fifoRound_progress:
  assumes "machineIdsValid p s" "boundedInv p s"
  shows "roundProgress p s (fifoRound p s)"
  unfolding roundProgress_def
  using fifoRound_evolves fifoRound_flag fifoRound_reaches[OF assms] by blast

lemma priorityRound_reaches:
  assumes ss: "std_sort sortf" and co: "comparatorOK compare"
    and mv: "machineIdsValid p s" and inv: "boundedInv p s"
    and j: "j \<in> set (jobs p)" and b: "b \<in> set (opsOf s j)"
    and rdy: "allPrevOpsCompleted s (opObjs s b) (opsOf s j)"
  shows "isScheduled (opObjs (fst (priorityRound sortf compare p s)) b)"
proof (cases "isScheduled (opObjs s b)")
  case True
  then show ?thesis using evolves_sched[OF priorityRound_evolves] by blast
next
  case False
  then have "b \<in> set (readyOperations p s)" using j b rdy by (auto simp: readyOperations_iff)
  then have mem: "b \<in> set (sortedReady sortf compare p s)" using sortedReady_set[OF ss co] by simp
  show ?thesis unfolding priorityRound_def
  proof (rule fold_reach[where I="\<lambda>st. evolves s (fst st) \<and> boundedInv p (fst st)" and x=b])
    show "b \<in> set (sortedReady sortf compare p s)" by (rule mem)
    show "evolves s (fst (s, False)) \<and> boundedInv p (fst (s, False))" using inv by simp
  next
    fix a and st :: "Store \<times> bool"
    assume a: "a \<in> set (sortedReady sortf compare p s)"
      and h: "evolves s (fst st) \<and> boundedInv p (fst st)"
    have "a \<in> set (allOps s p)"
      using a sortedReady_set[OF ss co] readyOperations_subset_allOps by blast
    then have "a \<in> set (allOps (fst st) p)"
      using h evolves_opsOf[of s "fst st"] by (simp add: allOps_iff)
    then have "boundedInv p (fst (priorityVisit p a st))"
      using priorityVisit_boundedInv h by blast
    then show "evolves s (fst (priorityVisit p a st)) \<and> boundedInv p (fst (priorityVisit p a st))"
      using h evolves_trans[OF _ priorityVisit_evolves] by blast
  next
    fix a and st :: "Store \<times> bool" assume "isScheduled (opObjs (fst st) b)"
    then show "isScheduled (opObjs (fst (priorityVisit p a st)) b)"
      using evolves_sched[OF priorityVisit_evolves] by blast
  next
    fix st :: "Store \<times> bool" assume h: "evolves s (fst st) \<and> boundedInv p (fst st)"
    then have e: "evolves s (fst st)" and bi: "boundedInv p (fst st)" by simp_all
    have sh: "sameShape s (fst st)" by (rule evolves_sameShape[OF e])
    have bj: "b \<in> set (opsOf (fst st) j)" using b evolves_opsOf[OF e] by simp
    have ao: "b \<in> set (allOps (fst st) p)" using j bj by (auto simp: allOps_iff)
    have "getMachine p (Operation.machineId (opObjs (fst st) b)) \<noteq> None"
      using machineIdsValid_getMachine[OF _ j bj] mv sameShape_machineIdsValid[OF sh] by simp
    then show "isScheduled (opObjs (fst (priorityVisit p b st)) b)"
      using bi ao by (rule priorityVisit_schedules)
  qed
qed

lemma priorityRound_progress:
  assumes "std_sort sortf" "comparatorOK compare" "machineIdsValid p s" "boundedInv p s"
  shows "roundProgress p s (priorityRound sortf compare p s)"
  unfolding roundProgress_def
  using priorityRound_evolves priorityRound_flag priorityRound_reaches[OF assms] by blast

lemma fifoLoop_completes:
  assumes "loopInv p s0 st" "machineIdsValid p s0" "boundedInv p (fst st)"
  shows "allScheduled p (fst (fifoLoop p st))"
  using assms
proof (induction p st rule: fifoLoop.induct)
  case (1 p s f i)
  show ?case
  proof (cases "f \<and> i < 1000")
    case True
    have sh: "sameShape s0 s" using 1(2) by (simp add: loopInv_def evolves_def)
    have bi: "boundedInv p s" using 1(4) by simp
    have mv: "machineIdsValid p s" using 1(3) sameShape_machineIdsValid[OF sh] by simp
    have "roundProgress p s (fifoRound p s)" by (rule fifoRound_progress[OF mv bi])
    then have "loopInv p s0 (fst (fifoRound p s), snd (fifoRound p s), i + 1)"
      by (rule loopInv_step[OF 1(2)])
    moreover have "boundedInv p (fst (fifoRound p s))" by (rule fifoRound_boundedInv[OF bi])
    ultimately have "allScheduled p (fst (fifoLoop p (fst (fifoRound p s), snd (fifoRound p s), i + 1)))"
      using 1(1)[OF True] 1(3) by simp
    then show ?thesis using True by (subst fifoLoop.simps) simp
  next
    case False
    then show ?thesis using loopInv_exit[OF 1(2) False] by (subst fifoLoop.simps) auto
  qed
qed

lemma priorityLoop_completes:
  assumes "loopInv p s0 st" "machineIdsValid p s0" "boundedInv p (fst st)"
    "std_sort sortf" "comparatorOK compare"
  shows "allScheduled p (fst (priorityLoop sortf compare p st))"
  using assms
proof (induction sortf compare p st rule: priorityLoop.induct)
  case (1 sortf compare p s f i)
  show ?case
  proof (cases "f \<and> i < 1000")
    case True
    have sh: "sameShape s0 s" using 1(2) by (simp add: loopInv_def evolves_def)
    have bi: "boundedInv p s" using 1(4) by simp
    have mv: "machineIdsValid p s" using 1(3) sameShape_machineIdsValid[OF sh] by simp
    have "roundProgress p s (priorityRound sortf compare p s)"
      by (rule priorityRound_progress[OF 1(5,6) mv bi])
    then have "loopInv p s0 (fst (priorityRound sortf compare p s),
        snd (priorityRound sortf compare p s), i + 1)"
      by (rule loopInv_step[OF 1(2)])
    moreover have "boundedInv p (fst (priorityRound sortf compare p s))"
      by (rule priorityRound_boundedInv[OF 1(5,6) bi])
    ultimately have "allScheduled p (fst (priorityLoop sortf compare p
        (fst (priorityRound sortf compare p s), snd (priorityRound sortf compare p s), i + 1)))"
      using 1(1)[OF True] 1(3,5,6) by simp
    then show ?thesis using True by (subst priorityLoop.simps) simp
  next
    case False
    then show ?thesis using loopInv_exit[OF 1(2) False] by (subst priorityLoop.simps) auto
  qed
qed

lemma allScheduled_cerr [simp]: "allScheduled p (s\<lparr>cerr := c\<rparr>) = allScheduled p s"
  by (simp add: allScheduled_def opsOf_def)

lemma schedule_allScheduled:
  assumes ss: "std_sort sortf" and mv: "machineIdsValid p s" and dp: "durationsPositive p s"
    and tw: "totalWork p s \<le> 2147483647"
    and len: "\<forall>j \<in> set (jobs p). length (opsOf s j) \<le> 999"
    and run: "schedule sortf algorithm p s = Inr s'"
  shows "allScheduled p s'"
proof -
  let ?s0 = "initialStore p s"
  have sh: "sameShape s ?s0" by (rule initialStore_sameShape)
  have mv0: "machineIdsValid p ?s0" using mv sameShape_machineIdsValid[OF sh] by simp
  have bi: "boundedInv p (fst (?s0, True, 0::int))" using initialStore_boundedInv[OF dp tw] by simp
  have "\<forall>j \<in> set (jobs p). length (opsOf ?s0 j) \<le> 999" using len sameShape_opsOf[OF sh] by simp
  then have li: "loopInv p ?s0 (?s0, True, 0)" by (rule loopInv_init)
  from run show ?thesis
  proof (cases rule: schedule_cases)
    case FIFO
    have "allScheduled p (fst (fifoLoop p (?s0, True, 0)))"
      by (rule fifoLoop_completes[OF li mv0 bi])
    then show ?thesis using FIFO scheduleFIFO_eq[of p s] by auto
  next
    case SPT
    have "allScheduled p (fst (priorityLoop sortf sptCompare p (?s0, True, 0)))"
      by (rule priorityLoop_completes[OF li mv0 bi ss sptCompare_OK])
    then show ?thesis using SPT
      by (simp add: scheduleSPT_def scheduleWithPriority_def initialStore_def)
  next
    case LPT
    have "allScheduled p (fst (priorityLoop sortf lptCompare p (?s0, True, 0)))"
      by (rule priorityLoop_completes[OF li mv0 bi ss lptCompare_OK])
    then show ?thesis using LPT
      by (simp add: scheduleLPT_def scheduleWithPriority_def initialStore_def)
  qed
qed

lemma strict_weak_order_asym: "strict_weak_order cmp \<Longrightarrow> cmp a b \<Longrightarrow> \<not> cmp b a"
  unfolding strict_weak_order_def by blast

lemma strict_weak_order_negtrans:
  assumes "strict_weak_order cmp" "\<not> cmp a b" "\<not> cmp b c"
  shows "\<not> cmp a c"
proof
  assume ac: "cmp a c"
  have irr: "\<And>x. \<not> cmp x x" and tr: "\<And>x y z. cmp x y \<Longrightarrow> cmp y z \<Longrightarrow> cmp x z"
    and eq: "\<And>x y z. \<not> cmp x y \<Longrightarrow> \<not> cmp y x \<Longrightarrow> \<not> cmp y z \<Longrightarrow> \<not> cmp z y \<Longrightarrow> \<not> cmp x z"
    using assms(1) unfolding strict_weak_order_def by blast+
  have "\<not> cmp b a" using tr[of b a c] ac assms(3) by blast
  moreover have "\<not> cmp c b" using tr[of a c b] ac assms(2) by blast
  ultimately show False using eq[of a b c] assms(2,3) ac by blast
qed

lemma stableInsert_mset: "mset (stableInsert cmp x ys) = add_mset x (mset ys)"
  by (induction ys) auto

lemma stableInsert_set: "set (stableInsert cmp x ys) = insert x (set ys)"
  by (induction ys) auto

lemma stableInsert_sorted:
  assumes "strict_weak_order cmp" "sorted_wrt (\<lambda>a b. \<not> cmp b a) ys"
  shows "sorted_wrt (\<lambda>a b. \<not> cmp b a) (stableInsert cmp x ys)"
  using assms(2)
proof (induction ys)
  case Nil then show ?case by simp
next
  case (Cons y ys)
  show ?case
  proof (cases "cmp y x")
    case True
    then have "\<not> cmp x y" using strict_weak_order_asym[OF assms(1)] by blast
    then show ?thesis using True Cons by (auto simp: stableInsert_set)
  next
    case False
    have "\<forall>z \<in> set ys. \<not> cmp z x"
      using Cons.prems False strict_weak_order_negtrans[OF assms(1)] by auto
    then show ?thesis using False Cons.prems by auto
  qed
qed

lemma insertionSort_mset: "mset (insertionSort cmp xs) = mset xs"
  unfolding insertionSort_def by (induction xs) (auto simp: stableInsert_mset)

lemma insertionSort_sorted:
  "strict_weak_order cmp \<Longrightarrow> sorted_wrt (\<lambda>a b. \<not> cmp b a) (insertionSort cmp xs)"
  unfolding insertionSort_def by (induction xs) (auto intro: stableInsert_sorted)

lemma insertionSort_std: "std_sort insertionSort"
  unfolding std_sort_def by (simp add: insertionSort_mset insertionSort_sorted)

lemma reversingSort_std: "std_sort reversingSort"
  unfolding std_sort_def reversingSort_def by (simp add: insertionSort_mset insertionSort_sorted)

lemma std_sort_nil: "std_sort sortf \<Longrightarrow> strict_weak_order cmp \<Longrightarrow> sortf cmp [] = []"
  unfolding std_sort_def by (metis mset_zero_iff_right)

lemma std_sort_single: "std_sort sortf \<Longrightarrow> strict_weak_order cmp \<Longrightarrow> sortf cmp [a] = [a]"
  unfolding std_sort_def by (metis mset_single_iff_right mset.simps(1) mset.simps(2))

lemma std_sort_two:
  assumes "std_sort sortf" "strict_weak_order cmp" "cmp a b"
  shows "sortf cmp [a, b] = [a, b]" and "sortf cmp [b, a] = [a, b]"
proof -
  have ne: "a \<noteq> b" using assms(2,3) unfolding strict_weak_order_def by blast
  { fix xs assume xs: "mset xs = {#a, b#}" "sorted_wrt (\<lambda>x y. \<not> cmp y x) xs"
    have "length xs = 2" using xs(1) by (metis size_mset size_add_mset size_empty numeral_2_eq_2)
    then obtain x y where xy: "xs = [x, y]"
      by (metis (no_types, opaque_lifting) length_0_conv length_Suc_conv numeral_2_eq_2)
    then have "{#x, y#} = {#a, b#}" using xs(1) by simp
    then have "(x = a \<and> y = b) \<or> (x = b \<and> y = a)" by (auto simp: add_eq_conv_diff add_mset_eq_single)
    moreover have "\<not> cmp y x" using xs(2) xy by simp
    ultimately have "xs = [a, b]" using assms(3) xy by auto }
  note main = this
  show "sortf cmp [a, b] = [a, b]"
    by (rule main) (use assms(1,2) in \<open>auto simp: std_sort_def\<close>)
  show "sortf cmp [b, a] = [a, b]"
    by (rule main) (use assms(1,2) in \<open>auto simp: std_sort_def\<close>)
qed

lemma Max_insert_max:
  "finite S \<Longrightarrow> Max (insert (max a b) S) = Max (insert (a::int) (insert b S))"
  by (cases "S = {}") (simp_all add: max.assoc)

lemma fold_max_Max:
  "fold (\<lambda>a t. if P a then max t (g a) else t) as (t0::int) = Max (insert t0 (g ` {a \<in> set as. P a}))"
proof (induction as arbitrary: t0)
  case Nil then show ?case by simp
next
  case (Cons a as)
  let ?S = "g ` {x \<in> set as. P x}"
  have fin: "finite ?S" by simp
  show ?case
  proof (cases "P a")
    case True
    then have img: "g ` {x \<in> set (a # as). P x} = insert (g a) ?S" by auto
    have "Max (insert (max t0 (g a)) ?S) = Max (insert t0 (insert (g a) ?S))"
      using fin by (rule Max_insert_max)
    then show ?thesis using True Cons.IH[of "max t0 (g a)"] img by simp
  next
    case False
    then have img: "g ` {x \<in> set (a # as). P x} = ?S" by auto
    show ?thesis using False Cons.IH[of t0] img by simp
  qed
qed

lemma jobCompletionTime_maxWith0:
  "jobCompletionTime s as = maxWith0 (scheduledEndTimes s as)"
proof -
  have "set (scheduledEndTimes s as) = (\<lambda>a. endTime (opObjs s a)) ` {a \<in> set as. isScheduled (opObjs s a)}"
    by (auto simp: scheduledEndTimes_def)
  then show ?thesis unfolding jobCompletionTime_def maxWith0_def
    by (simp add: fold_max_Max)
qed

lemma metricsLoop_fold:
  "fold (\<lambda>j (mk, total). (let jct = f j in (max mk jct, int32 (total + jct)))) js (m0, t0 :: int) =
     (Max (insert m0 (f ` set js)), if js = [] then t0 else int32 (t0 + sum_list (map f js)))"
proof (induction js arbitrary: m0 t0)
  case Nil then show ?case by simp
next
  case (Cons j js)
  have "Max (insert (max m0 (f j)) (f ` set js)) = Max (insert m0 (insert (f j) (f ` set js)))"
    by (rule Max_insert_max) simp
  moreover have "int32 (int32 (t0 + f j) + sum_list (map f js)) = int32 (t0 + (f j + sum_list (map f js)))"
    by (simp add: int32_add add.assoc)
  ultimately show ?case using Cons.IH[of "max m0 (f j)" "int32 (t0 + f j)"] by (simp add: Let_def)
qed

lemma metricsLoop_eq:
  "metricsLoop s js =
     (Max (insert 0 ((\<lambda>j. jobCompletionTime s (opsOf s j)) ` set js)),
      int32 (sum_list (map (\<lambda>j. jobCompletionTime s (opsOf s j)) js)))"
  unfolding metricsLoop_def opsOf_def[symmetric]
  by (simp add: metricsLoop_fold) (simp add: int32_def)

lemma maxWith0_ge0: "0 \<le> maxWith0 es" by (simp add: maxWith0_def)

lemma maxWith0_append: "maxWith0 (xs @ ys) = max (maxWith0 xs) (maxWith0 ys)"
proof -
  have "set (0 # xs @ ys) = set (0 # xs) \<union> set (0 # ys)" by auto
  moreover have "Max (set (0 # xs) \<union> set (0 # ys)) = max (Max (set (0 # xs))) (Max (set (0 # ys)))"
    by (rule Max_Un) auto
  ultimately show ?thesis unfolding maxWith0_def by simp
qed

lemma Max_insert_0_image:
  "Max (insert (0::int) (g ` set (x # xs))) = max (g x) (Max (insert 0 (g ` set xs)))"
proof -
  have "insert 0 (g ` set (x # xs)) = insert (g x) (insert 0 (g ` set xs))" by auto
  then show ?thesis by simp
qed

lemma maxWith0_concat:
  "Max (insert 0 ((\<lambda>x. maxWith0 (f x)) ` set xs)) = maxWith0 (concat (map f xs))"
proof (induction xs)
  case Nil then show ?case by (simp add: maxWith0_def)
next
  case (Cons x xs)
  show ?case unfolding Max_insert_0_image Cons.IH by (simp add: maxWith0_append)
qed

lemma scheduledEndTimes_concat:
  "scheduledEndTimes s (concat xss) = concat (map (scheduledEndTimes s) xss)"
  by (induction xss) (simp_all add: scheduledEndTimes_def)

lemma makespan_eq:
  "fst (metricsLoop s (jobs p)) = maxWith0 (scheduledEndTimes s (allOps s p))"
  unfolding metricsLoop_eq fst_conv jobCompletionTime_maxWith0 allOps_def scheduledEndTimes_concat
  using maxWith0_concat[of "\<lambda>j. scheduledEndTimes s (opsOf s j)" "jobs p"]
  by (simp add: comp_def)

lemma total_eq:
  "snd (metricsLoop s js) = int32 (sum_list (map (\<lambda>j. maxWith0 (scheduledEndTimes s (opsOf s j))) js))"
  unfolding metricsLoop_eq snd_conv jobCompletionTime_maxWith0 ..

lemma maxWith0_maxOr0: "\<forall>e \<in> set es. 0 \<le> e \<Longrightarrow> maxWith0 es = maxOr0 es"
proof (cases "es = []")
  case True then show ?thesis by (simp add: maxWith0_def maxOr0_def)
next
  case False
  assume nn: "\<forall>e \<in> set es. 0 \<le> e"
  have "Max (insert 0 (set es)) = max 0 (Max (set es))" using False by simp
  moreover have "0 \<le> Max (set es)"
  proof -
    obtain e where e: "e \<in> set es" using False by (cases es) auto
    then have "0 \<le> e" using nn by blast
    also have "e \<le> Max (set es)" using e by simp
    finally show ?thesis .
  qed
  ultimately show ?thesis using False by (simp add: maxWith0_def maxOr0_def)
qed

lemma metricsLoop_frame [simp]:
  "metricsLoop (s\<lparr>resultObjs := x\<rparr>) js = metricsLoop s js"
  by (simp add: metricsLoop_def jobCompletionTime_def cong: if_cong)

subsection \<open>Rounding to \<open>double\<close>\<close>

lemma pow2_powr: "pow2 e = 2 powr (real_of_int e)"
  by (simp add: pow2_def powr_realpow[symmetric] powr_minus divide_inverse)

lemma pow2_pos [simp]: "0 < pow2 e" by (simp add: pow2_powr)

lemma pow2_nonzero [simp]: "pow2 e \<noteq> 0" by (simp add: pow2_powr)

lemma pow2_mono: "a \<le> b \<Longrightarrow> pow2 a \<le> pow2 b" by (simp add: pow2_powr)

lemma pow2_less_iff: "pow2 a < pow2 b \<longleftrightarrow> a < b" by (simp add: pow2_powr)

lemma pow2_add: "pow2 (a + b) = pow2 a * pow2 b" by (simp add: pow2_powr powr_add)

lemma binade_bounds:
  assumes "x \<noteq> 0"
  shows "pow2 (binade x) \<le> \<bar>x\<bar>" and "\<bar>x\<bar> < pow2 (binade x + 1)"
proof -
  have "pow2 (binade x) \<le> \<bar>x\<bar> \<and> \<bar>x\<bar> < pow2 (binade x + 1)"
  proof (cases "1 \<le> \<bar>x\<bar>")
    case True
    define m where "m = \<lfloor>\<bar>x\<bar>\<rfloor>"
    have m: "0 < m" using True unfolding m_def by linarith
    have b: "2 ^ nat (bitlen m - 1) \<le> m" "m < 2 ^ nat (bitlen m)" using bitlen_bounds[OF m] by auto
    have ge: "1 \<le> bitlen m" using m by (auto simp: bitlen_alt_def)
    have e: "binade x = bitlen m - 1" using True by (simp add: binade_def m_def)
    have "real_of_int (2 ^ nat (bitlen m - 1)) \<le> real_of_int m" using b(1) by linarith
    also have "\<dots> \<le> \<bar>x\<bar>" unfolding m_def by linarith
    finally have lo: "pow2 (binade x) \<le> \<bar>x\<bar>" using ge by (simp add: e pow2_def)
    have "\<lfloor>\<bar>x\<bar>\<rfloor> < 2 ^ nat (bitlen m)" using b(2) unfolding m_def .
    then have "\<bar>x\<bar> < real_of_int (2 ^ nat (bitlen m))" by (metis floor_less_iff)
    then have hi: "\<bar>x\<bar> < pow2 (binade x + 1)" using ge by (simp add: e pow2_def)
    show ?thesis using lo hi ..
  next
    case False
    define y where "y = 1 / \<bar>x\<bar>"
    have x0: "0 < \<bar>x\<bar>" using assms by simp
    have y1: "1 < y" using False x0 unfolding y_def by (simp add: field_simps)
    define m where "m = \<lceil>y\<rceil> - 1"
    have m: "0 < m" using y1 unfolding m_def by linarith
    have b: "2 ^ nat (bitlen m - 1) \<le> m" "m < 2 ^ nat (bitlen m)" using bitlen_bounds[OF m] by auto
    have ge: "1 \<le> bitlen m" using m by (auto simp: bitlen_alt_def)
    have e: "binade x = - bitlen m" using False by (simp add: binade_def m_def y_def)
    have "\<lceil>y\<rceil> \<le> 2 ^ nat (bitlen m)" using b(2) unfolding m_def by linarith
    then have "y \<le> real_of_int (2 ^ nat (bitlen m))" by (metis ceiling_le_iff)
    then have yhi: "y \<le> 2 ^ nat (bitlen m)" by simp
    have "2 ^ nat (bitlen m - 1) < \<lceil>y\<rceil>" using b(1) unfolding m_def by linarith
    then have "real_of_int (2 ^ nat (bitlen m - 1)) < y" by (metis less_ceiling_iff)
    then have ylo: "2 ^ nat (bitlen m - 1) < y" by simp
    have xy: "\<bar>x\<bar> = 1 / y" unfolding y_def by simp
    have y0: "0 < y" using y1 by simp
    have lo: "pow2 (binade x) \<le> \<bar>x\<bar>"
      using yhi y0 ge unfolding e xy by (simp add: pow2_def field_simps)
    have n: "nat (bitlen m) = Suc (nat (bitlen m - 1))" using ge by linarith
    have hi: "\<bar>x\<bar> < pow2 (binade x + 1)"
    proof (cases "bitlen m = 1")
      case True then show ?thesis using y1 unfolding e xy by (simp add: pow2_def)
    next
      case F: False
      then have "\<not> 0 \<le> - bitlen m + 1" using ge by linarith
      moreover have "nat (- (- bitlen m + 1)) = nat (bitlen m - 1)" by simp
      ultimately show ?thesis using ylo y0 unfolding e xy by (simp add: pow2_def field_simps)
    qed
    show ?thesis using lo hi ..
  qed
  then show "pow2 (binade x) \<le> \<bar>x\<bar>" and "\<bar>x\<bar> < pow2 (binade x + 1)" by auto
qed

lemma binade_unique:
  assumes "pow2 e \<le> \<bar>x\<bar>" "\<bar>x\<bar> < pow2 (e + 1)"
  shows "binade x = e"
proof -
  have "0 < \<bar>x\<bar>" using assms(1) pow2_pos[of e] by linarith
  then have x: "x \<noteq> 0" by simp
  have "pow2 e < pow2 (binade x + 1)" using assms(1) binade_bounds(2)[OF x] by linarith
  moreover have "pow2 (binade x) < pow2 (e + 1)" using assms(2) binade_bounds(1)[OF x] by linarith
  ultimately show ?thesis unfolding pow2_less_iff by linarith
qed

lemma roundHalfEven_int [simp]: "roundHalfEven (of_int k) = k"
  by (simp add: roundHalfEven_def)

lemma roundHalfEven_near: "\<bar>of_int (roundHalfEven x) - x\<bar> \<le> 1 / 2"
  unfolding roundHalfEven_def Let_def by (auto simp: abs_if) linarith+

lemma toDouble_int:
  assumes "\<bar>k\<bar> < 2 ^ 53"
  shows "toDouble (of_int k) = of_int k"
proof (cases "k = 0")
  case True then show ?thesis by (simp add: toDouble_def)
next
  case False
  define x where "x = real_of_int k"
  have x: "x \<noteq> 0" using False by (simp add: x_def)
  have "\<bar>x\<bar> < 2 ^ 53" using assms unfolding x_def by (metis of_int_abs of_int_less_numeral_power_cancel_iff)
  then have "pow2 (binade x) < pow2 53" using binade_bounds(1)[OF x] by (simp add: pow2_def)
  then have e: "binade x \<le> 52" unfolding pow2_less_iff by simp
  have "1 \<le> \<bar>k\<bar>" using False by linarith
  then have "1 \<le> \<bar>x\<bar>" unfolding x_def by (metis of_int_1_le_iff of_int_abs)
  then have "pow2 0 < pow2 (binade x + 1)" using binade_bounds(2)[OF x] by (simp add: pow2_def)
  then have e0: "0 \<le> binade x" unfolding pow2_less_iff by simp
  define n where "n = nat (52 - binade x)"
  have q: "max (binade x - 52) (- 1074) = - int n" using e e0 unfolding n_def by simp
  have p: "pow2 (- int n) = 1 / 2 ^ n"
  proof (cases "n = 0")
    case True then show ?thesis by (simp add: pow2_def)
  next
    case False
    then have "\<not> 0 \<le> - int n" by simp
    then show ?thesis by (simp add: pow2_def)
  qed
  have "x / pow2 (- int n) = of_int (k * 2 ^ n)" unfolding p x_def by simp
  then have "roundHalfEven (x / pow2 (- int n)) = k * 2 ^ n" by (simp only: roundHalfEven_int)
  then have "toDouble x = of_int (k * 2 ^ n) * pow2 (- int n)"
    using x unfolding toDouble_def q Let_def by simp
  also have "\<dots> = x" unfolding p x_def by simp
  finally show ?thesis unfolding x_def .
qed

lemma toDouble_near:
  assumes "x \<noteq> 0"
  shows "\<bar>toDouble x - x\<bar> \<le> pow2 (max (binade x - 52) (- 1074)) / 2"
proof -
  define q where "q = max (binade x - 52) (- 1074)"
  have "\<bar>of_int (roundHalfEven (x / pow2 q)) - x / pow2 q\<bar> \<le> 1 / 2" by (rule roundHalfEven_near)
  then have "\<bar>of_int (roundHalfEven (x / pow2 q)) - x / pow2 q\<bar> * pow2 q \<le> 1 / 2 * pow2 q"
    by (rule mult_right_mono) (simp add: less_imp_le)
  moreover have "\<bar>of_int (roundHalfEven (x / pow2 q)) - x / pow2 q\<bar> * pow2 q =
      \<bar>(of_int (roundHalfEven (x / pow2 q)) - x / pow2 q) * pow2 q\<bar>"
    by (rule abs_mult_pos) (simp add: less_imp_le)
  moreover have "(of_int (roundHalfEven (x / pow2 q)) - x / pow2 q) * pow2 q =
      of_int (roundHalfEven (x / pow2 q)) * pow2 q - x"
    by (simp add: left_diff_distrib)
  ultimately show ?thesis using assms unfolding toDouble_def Let_def q_def[symmetric] by simp
qed

lemma toDouble_int32: "toDouble (real_of_int (int32 x)) = real_of_int (int32 x)"
proof (rule toDouble_int)
  have "- 2147483648 \<le> int32 x \<and> int32 x \<le> 2147483647" by (rule int32_range)
  then have "\<bar>int32 x\<bar> < 9007199254740992" by linarith
  then show "\<bar>int32 x\<bar> < 2 ^ 53" by simp
qed

lemma toDouble_nat:
  assumes "n < 2 ^ 53"
  shows "toDouble (real n) = real n"
proof -
  have "\<bar>int n\<bar> < 2 ^ 53" using assms by simp
  then have "toDouble (real_of_int (int n)) = real_of_int (int n)" by (rule toDouble_int)
  then show ?thesis by simp
qed

subsection \<open>The fields that \<open>calculateMetrics\<close> writes\<close>

lemma calculateMetrics_fields:
  "makespan (resultObjs (calculateMetrics r s) r) = fst (metricsLoop s (jobs (problem (resultObjs s r))))"
  "totalCompletionTime (resultObjs (calculateMetrics r s) r) = snd (metricsLoop s (jobs (problem (resultObjs s r))))"
  "avgFlowTime (resultObjs (calculateMetrics r s) r) =
     (if jobs (problem (resultObjs s r)) = [] then 0
      else toDouble (real_of_int (snd (metricsLoop s (jobs (problem (resultObjs s r))))) /
                     toDouble (real (length (jobs (problem (resultObjs s r)))))))"
  "problem (resultObjs (calculateMetrics r s) r) = problem (resultObjs s r)"
  "scheduledJobs (resultObjs (calculateMetrics r s) r) = scheduledJobs (resultObjs s r)"
  "opObjs (calculateMetrics r s) = opObjs s"
  "jobObjs (calculateMetrics r s) = jobObjs s"
  "machineObjs (calculateMetrics r s) = machineObjs s"
  "resultCount (calculateMetrics r s) = resultCount s"
  "cerr (calculateMetrics r s) = cerr s"
  "r' \<noteq> r \<Longrightarrow> resultObjs (calculateMetrics r s) r' = resultObjs s r'"
  by (simp_all add: calculateMetrics_def Let_def total_eq toDouble_int32)

lemma calculateMetrics_idem: "calculateMetrics r (calculateMetrics r s) = calculateMetrics r s"
  by (simp add: calculateMetrics_def Let_def)

subsection \<open>\<open>solve\<close>, frames, and independence of the sorting function\<close>

lemma solve_None:
  "solve sortf algorithm None s = (Inl (runtime_error ''Problem instance is null''), s)"
  by (simp add: solve_def)

lemma withNewResult_simps [simp]:
  "opObjs (withNewResult s) = opObjs s"
  "jobObjs (withNewResult s) = jobObjs s"
  "machineObjs (withNewResult s) = machineObjs s"
  "cerr (withNewResult s) = cerr s"
  "resultCount (withNewResult s) = Suc (resultCount s)"
  "resultObjs (withNewResult s) = (resultObjs s)(resultCount s := newScheduleResult)"
  by (simp_all add: withNewResult_def)

lemma solve_Some:
  assumes "schedule sortf algorithm p (withNewResult s) = Inr s2"
  shows "solve sortf algorithm (Some p) s =
     (Inr (resultCount s),
      calculateMetrics (resultCount s)
        (s2\<lparr>resultObjs :=
              (resultObjs s2)(resultCount s := (resultObjs s2 (resultCount s))\<lparr>problem := p\<rparr>)\<rparr>))"
  using assms by (simp add: solve_def Let_def)

lemma solve_error:
  assumes "schedule sortf algorithm p (withNewResult s) = Inl e"
  shows "solve sortf algorithm (Some p) s = (Inl e, s)"
  using assms by (simp add: solve_def Let_def)

lemma solve_Inr:
  assumes "solve sortf algorithm (Some p) s = (Inr r, s')"
  obtains s2 where "schedule sortf algorithm p (withNewResult s) = Inr s2"
    and "r = resultCount s"
    and "s' = calculateMetrics r
        (s2\<lparr>resultObjs :=
              (resultObjs s2)(resultCount s := (resultObjs s2 (resultCount s))\<lparr>problem := p\<rparr>)\<rparr>)"
proof (cases "schedule sortf algorithm p (withNewResult s)")
  case (Inl e)
  then show ?thesis using assms solve_error[OF Inl] by simp
next
  case (Inr s2)
  have "r = resultCount s" using assms solve_Some[OF Inr] by simp
  moreover have "s' = calculateMetrics r
        (s2\<lparr>resultObjs :=
              (resultObjs s2)(resultCount s := (resultObjs s2 (resultCount s))\<lparr>problem := p\<rparr>)\<rparr>)"
    using assms solve_Some[OF Inr] by auto
  ultimately show ?thesis using that[OF Inr] by blast
qed

lemma opsOf_calculateMetrics: "opsOf (calculateMetrics r s) = opsOf s"
  by (rule ext) (simp add: opsOf_def calculateMetrics_fields)

lemma fifoLoop_evolves: "evolves s (fst (fifoLoop p (s, f, i)))"
proof (rule fifoLoop_invariant[where I="\<lambda>t. evolves s t" and st="(s, f, i)", simplified])
  fix t assume "evolves s t"
  then show "evolves s (fst (fifoRound p t))" using fifoRound_evolves evolves_trans by blast
qed

lemma priorityLoop_evolves: "evolves s (fst (priorityLoop sortf compare p (s, f, i)))"
proof (rule priorityLoop_invariant[where I="\<lambda>t. evolves s t" and st="(s, f, i)", simplified])
  fix t assume "evolves s t"
  then show "evolves s (fst (priorityRound sortf compare p t))"
    using priorityRound_evolves evolves_trans by blast
qed

lemma schedule_frame:
  assumes "schedule sortf algorithm p s = Inr s'"
  shows "jobObjs s' = jobObjs s \<and> resultObjs s' = resultObjs s \<and>
         resultCount s' = resultCount s \<and> (\<forall>a. sameStatic (opObjs s a) (opObjs s' a))"
proof -
  let ?s0 = "initialStore p s"
  have sh0: "sameShape s ?s0" by (rule initialStore_sameShape)
  have fr: "\<And>t. evolves ?s0 t \<Longrightarrow> jobObjs t = jobObjs s \<and> resultObjs t = resultObjs s \<and>
              resultCount t = resultCount s \<and> (\<forall>a. sameStatic (opObjs s a) (opObjs t a))"
    using sameShape_trans[OF sh0 evolves_sameShape] unfolding sameShape_def by blast
  from assms show ?thesis
  proof (cases rule: schedule_cases)
    case FIFO
    obtain c where c: "scheduleFIFO p s = (fst (fifoLoop p (?s0, True, 0)))\<lparr>cerr := c\<rparr>"
      using scheduleFIFO_eq by blast
    show ?thesis using FIFO fr[OF fifoLoop_evolves[of ?s0 p True 0]]
      by (simp add: c)
  next
    case SPT
    show ?thesis using SPT fr[OF priorityLoop_evolves[of ?s0 sortf sptCompare p True 0]]
      by (simp add: scheduleSPT_def scheduleWithPriority_def initialStore_def)
  next
    case LPT
    show ?thesis using LPT fr[OF priorityLoop_evolves[of ?s0 sortf lptCompare p True 0]]
      by (simp add: scheduleLPT_def scheduleWithPriority_def initialStore_def)
  qed
qed

lemma solve_frame:
  "jobObjs (snd (solve sortf algorithm q s)) = jobObjs s \<and>
   (\<forall>r < resultCount s. resultObjs (snd (solve sortf algorithm q s)) r = resultObjs s r)"
proof (cases q)
  case None then show ?thesis by (simp add: solve_None)
next
  case (Some p)
  show ?thesis
  proof (cases "schedule sortf algorithm p (withNewResult s)")
    case (Inl e)
    then show ?thesis using Some by (simp add: solve_error)
  next
    case (Inr s2)
    have "jobObjs s2 = jobObjs (withNewResult s)" "resultObjs s2 = resultObjs (withNewResult s)"
      using schedule_frame[OF Inr] by blast+
    then show ?thesis using Some by (simp add: solve_Some[OF Inr] calculateMetrics_def Let_def)
  qed
qed

lemma solve_objects:
  assumes "schedule sortf algorithm p (withNewResult s) = Inr s2"
  shows "opObjs (snd (solve sortf algorithm (Some p) s)) = opObjs s2"
    and "jobObjs (snd (solve sortf algorithm (Some p) s)) = jobObjs s"
  using solve_frame[of sortf algorithm "Some p" s]
  by (simp_all add: solve_Some[OF assms] calculateMetrics_fields)

lemma allocate_wf [simp]:
  "machineIdsValid p (withNewResult s) = machineIdsValid p s"
  "durationsPositive p (withNewResult s) = durationsPositive p s"
  "opsOf (withNewResult s) = opsOf s"
  "totalWork p (withNewResult s) = totalWork p s"
  "opsNotShared p (withNewResult s) = opsNotShared p s"
  "jobIdsConsistent p (withNewResult s) = jobIdsConsistent p s"
  by (simp_all add: machineIdsValid_def durationsPositive_def opsOf_def fun_eq_iff
        totalWork_def allOps_def opsNotShared_def jobIdsConsistent_def)

lemma allScheduled_cong:
  "opObjs s = opObjs t \<Longrightarrow> jobObjs s = jobObjs t \<Longrightarrow> allScheduled p s = allScheduled p t"
  by (simp add: allScheduled_def opsOf_def)

lemma jobIdsConsistent_oneJob: "jobIdsConsistent oneJobProblem oneJobStore"
  by (simp add: jobIdsConsistent_def oneJobProblem_def oneJobStore_def opsOf_def newOperation_def)

lemma sorted_unique:
  assumes tot: "\<forall>a \<in> set xs. \<forall>b \<in> set xs. a \<noteq> b \<longrightarrow> cmp a b \<or> cmp b a"
    and "mset ys = mset xs"
    and "sorted_wrt (\<lambda>a b. \<not> cmp b a) xs" "sorted_wrt (\<lambda>a b. \<not> cmp b a) ys"
  shows "ys = xs"
  using assms
proof (induction xs arbitrary: ys)
  case Nil then show ?case by simp
next
  case (Cons x xs)
  from Cons.prems(2) obtain y ys' where ys: "ys = y # ys'" by (cases ys) auto
  have "y = x"
  proof (rule ccontr)
    assume ne: "y \<noteq> x"
    have "x \<in> set ys" using Cons.prems(2) by (metis list.set_intros(1) mset_eq_setD)
    then have "x \<in> set ys'" using ne ys by auto
    then have a: "\<not> cmp x y" using Cons.prems(4) ys by auto
    have "y \<in> set (x # xs)" using Cons.prems(2) ys by (metis list.set_intros(1) mset_eq_setD)
    then have yx: "y \<in> set xs" using ne by auto
    then have b: "\<not> cmp y x" using Cons.prems(3) by auto
    show False using Cons.prems(1) a b ne yx by auto
  qed
  moreover have "ys' = xs"
  proof (rule Cons.IH)
    show "\<forall>a \<in> set xs. \<forall>b \<in> set xs. a \<noteq> b \<longrightarrow> cmp a b \<or> cmp b a" using Cons.prems(1) by auto
    show "mset ys' = mset xs" using Cons.prems(2) ys \<open>y = x\<close> by simp
    show "sorted_wrt (\<lambda>a b. \<not> cmp b a) xs" using Cons.prems(3) by simp
    show "sorted_wrt (\<lambda>a b. \<not> cmp b a) ys'" using Cons.prems(4) ys by simp
  qed
  ultimately show ?case using ys by simp
qed

lemma sameShape_distinctDurations: "sameShape s t \<Longrightarrow> distinctDurations p t = distinctDurations p s"
  by (simp add: distinctDurations_def allOps_def sameShape_opsOf) (simp add: sameShape_def sameStatic_def)

lemma sortedReady_unique:
  assumes "std_sort sortf" "std_sort sortg" "distinctDurations p s"
    and c: "compare = sptCompare \<or> compare = lptCompare"
  shows "sortedReady sortf compare p s = sortedReady sortg compare p s"
proof -
  let ?cmp = "\<lambda>a b. compare (opObjs s a) (opObjs s b)"
  have co: "comparatorOK compare" using c sptCompare_OK lptCompare_OK by auto
  have swo: "strict_weak_order ?cmp" using co unfolding comparatorOK_def by blast
  let ?xs = "sortedReady sortg compare p s"
  have setxs: "set ?xs = set (readyOperations p s)" by (rule sortedReady_set[OF assms(2) co])
  have tot: "\<forall>a \<in> set ?xs. \<forall>b \<in> set ?xs. a \<noteq> b \<longrightarrow> ?cmp a b \<or> ?cmp b a"
  proof (intro ballI impI)
    fix a b assume "a \<in> set ?xs" "b \<in> set ?xs" "a \<noteq> b"
    then have "processingTime (opObjs s a) \<noteq> processingTime (opObjs s b)"
      using assms(3) readyOperations_subset_allOps[of p s] unfolding setxs distinctDurations_def
      by blast
    then show "?cmp a b \<or> ?cmp b a"
      using c by (auto simp: sptCompare_def lptCompare_def)
  qed
  show ?thesis
  proof (rule sorted_unique[where cmp="?cmp"])
    show "\<forall>a \<in> set ?xs. \<forall>b \<in> set ?xs. a \<noteq> b \<longrightarrow> ?cmp a b \<or> ?cmp b a" by (rule tot)
    show "mset (sortedReady sortf compare p s) = mset ?xs"
      using sortedReady_mset[OF assms(1) co] sortedReady_mset[OF assms(2) co] by simp
    show "sorted_wrt (\<lambda>a b. \<not> ?cmp b a) ?xs"
      using assms(2) swo unfolding std_sort_def sortedReady_def by blast
    show "sorted_wrt (\<lambda>a b. \<not> ?cmp b a) (sortedReady sortf compare p s)"
      using assms(1) swo unfolding std_sort_def sortedReady_def by blast
  qed
qed

lemma priorityLoop_unique:
  assumes "std_sort sortf" "std_sort sortg" "distinctDurations p (fst st)"
    and "compare = sptCompare \<or> compare = lptCompare"
  shows "priorityLoop sortf compare p st = priorityLoop sortg compare p st"
  using assms
proof (induction sortf compare p st rule: priorityLoop.induct)
  case (1 sortf compare p s f i)
  show ?case
  proof (cases "f \<and> i < 1000")
    case True
    have r: "priorityRound sortf compare p s = priorityRound sortg compare p s"
      using sortedReady_unique[OF 1(2,3) _ 1(5)] 1(4) by (simp add: priorityRound_def)
    have "distinctDurations p (fst (priorityRound sortf compare p s))"
      using 1(4) sameShape_distinctDurations[OF evolves_sameShape[OF priorityRound_evolves]] by simp
    then have "priorityLoop sortf compare p
        (fst (priorityRound sortf compare p s), snd (priorityRound sortf compare p s), i + 1) =
      priorityLoop sortg compare p
        (fst (priorityRound sortf compare p s), snd (priorityRound sortf compare p s), i + 1)"
      using 1(1)[OF True] 1(2,3,5) by simp
    then show ?thesis using True r
      by (subst priorityLoop.simps, subst (2) priorityLoop.simps) simp
  next
    case False
    then show ?thesis by (subst priorityLoop.simps, subst (2) priorityLoop.simps) auto
  qed
qed

lemma schedule_unique:
  assumes "std_sort sortf" "std_sort sortg" "distinctDurations p s"
  shows "schedule sortf algorithm p s = schedule sortg algorithm p s"
proof -
  have d: "distinctDurations p (initialStore p s)"
    using assms(3) sameShape_distinctDurations[OF initialStore_sameShape] by simp
  have "scheduleSPT sortf p s = scheduleSPT sortg p s"
    using priorityLoop_unique[OF assms(1,2), of p "(initialStore p s, True, 0)" sptCompare] d
    by (simp add: scheduleSPT_def scheduleWithPriority_def initialStore_def)
  moreover have "scheduleLPT sortf p s = scheduleLPT sortg p s"
    using priorityLoop_unique[OF assms(1,2), of p "(initialStore p s, True, 0)" lptCompare] d
    by (simp add: scheduleLPT_def scheduleWithPriority_def initialStore_def)
  ultimately show ?thesis by (simp add: schedule_def)
qed

lemma solve_unique:
  assumes "std_sort sortf" "std_sort sortg" "distinctDurations p s"
  shows "solve sortf algorithm (Some p) s = solve sortg algorithm (Some p) s"
proof -
  have "distinctDurations p (withNewResult s)"
    using assms(3) by (simp add: distinctDurations_def allOps_def)
  from schedule_unique[OF assms(1,2) this] show ?thesis by (simp add: solve_def)
qed

lemma jobReadyTime_evolves:
  assumes ev: "evolves s t" and rdy: "allPrevOpsCompleted s (opObjs s a) bs"
  shows "jobReadyTime t (opObjs t a) bs = jobReadyTime s (opObjs s a) bs"
  unfolding jobReadyTime_def
proof (rule fold_cong[OF refl refl])
  fix b assume b: "b \<in> set bs"
  have ids: "operationId (opObjs t b) = operationId (opObjs s b)"
    "operationId (opObjs t a) = operationId (opObjs s a)"
    using evolves_opId[OF ev] by simp_all
  have "operationId (opObjs s b) < operationId (opObjs s a) \<Longrightarrow> opObjs t b = opObjs s b"
    using rdy b ev unfolding allPrevOpsCompleted_iff evolves_def by blast
  then show "(\<lambda>u. if operationId (opObjs t b) < operationId (opObjs t a)
                   then max u (endTime (opObjs t b)) else u) =
             (\<lambda>u. if operationId (opObjs s b) < operationId (opObjs s a)
                   then max u (endTime (opObjs s b)) else u)"
    unfolding ids by auto
qed

lemma stuck_commit:
  assumes jr: "0 \<le> jr" "jr \<le> 2147483647" and av: "av \<le> 2147483647"
    and d: "- 2147483648 \<le> d \<and> d \<le> 0 \<or> 2147483647 < jr + d \<and> d \<le> 2147483648"
  shows "int32 (max av jr + d) \<le> max av jr"
proof -
  let ?st = "max av jr"
  have st: "0 \<le> ?st" "?st \<le> 2147483647" "jr \<le> ?st" using jr av by simp_all
  from d show ?thesis
  proof
    assume "- 2147483648 \<le> d \<and> d \<le> 0"
    then have "int32 (?st + d) = ?st + d" using st by (intro int32_id) linarith+
    then show ?thesis using \<open>- 2147483648 \<le> d \<and> d \<le> 0\<close> by simp
  next
    assume h: "2147483647 < jr + d \<and> d \<le> 2147483648"
    then have "int32 (?st + d) = ?st + d - 4294967296" using st by (intro int32_wrap) linarith+
    then show ?thesis using h st by linarith
  qed
qed

lemma fifoVisit_stuck:
  assumes sk: "stuck p j a (fst st)" and k: "k \<in> set (jobs p)" and b: "b \<in> set (opsOf (fst st) k)"
  shows "stuck p j a (fst (fifoVisit p k b st))"
proof (cases rule: fifoVisit_cases[of p k b st])
  case skip then show ?thesis using sk by simp
next
  case (commit m')
  let ?s = "fst st"
  let ?start = "max (availableTime (machineObjs ?s m')) (jobReadyTime ?s (opObjs ?s b) (opsOf ?s k))"
  let ?t = "scheduleOperation m' b ?start ?s"
  have t: "fst (fifoVisit p k b st) = ?t" unfolding commit(4) by simp
  have ev: "evolves ?s ?t" by (rule scheduleOperation_evolves[OF commit(1)])
  have sh: "sameShape ?s ?t" by (rule evolves_sameShape[OF ev])
  have oo: "\<And>i. opsOf ?t i = opsOf ?s i" by (rule evolves_opsOf[OF ev])
  have stat: "processingTime (opObjs ?t a) = processingTime (opObjs ?s a)"
    "Operation.machineId (opObjs ?t a) = Operation.machineId (opObjs ?s a)"
    using sh by (simp_all add: sameShape_def sameStatic_def)
  from sk obtain m where m: "getMachine p (Operation.machineId (opObjs ?s a)) = Some m"
    and avm: "availableTime (machineObjs ?s m) \<le> 2147483647"
    by (auto simp: stuck_def split: option.splits)
  have j: "j \<in> set (jobs p)" and aj: "a \<in> set (opsOf ?s j)"
    and uniq: "\<forall>i \<in> set (jobs p). a \<in> set (opsOf ?s i) \<longrightarrow> i = j"
    and un: "\<not> isScheduled (opObjs ?s a)"
    and rdy: "allPrevOpsCompleted ?s (opObjs ?s a) (opsOf ?s j)"
    and jr: "jobReadyTime ?s (opObjs ?s a) (opsOf ?s j) \<le> 2147483647"
    and d: "- 2147483648 \<le> processingTime (opObjs ?s a) \<and> processingTime (opObjs ?s a) \<le> 0 \<or>
            2147483647 < jobReadyTime ?s (opObjs ?s a) (opsOf ?s j) + processingTime (opObjs ?s a) \<and>
            processingTime (opObjs ?s a) \<le> 2147483648"
    using sk by (simp_all add: stuck_def)
  have un': "\<not> isScheduled (opObjs ?t a)"
  proof (cases "b = a")
    case False then show ?thesis using un by simp
  next
    case True
    then have kj: "k = j" using uniq k b by blast
    have mm: "m' = m" using commit(2) m True by simp
    have le: "int32 (?start + getDuration (opObjs ?s b)) \<le> ?start"
      unfolding True kj mm getDuration_def
      by (rule stuck_commit[OF jobReadyTime_nonneg jr avm d])
    have "opObjs ?t b = setScheduled ?start (int32 (?start + getDuration (opObjs ?s b))) (opObjs ?s b)"
      by simp
    then have "startTime (opObjs ?t b) = ?start"
      "endTime (opObjs ?t b) = int32 (?start + getDuration (opObjs ?s b))"
      by (simp_all add: setScheduled_def)
    then have "\<not> isScheduled (opObjs ?t b)" unfolding isScheduled_def using le by linarith
    then show ?thesis unfolding True .
  qed
  have av': "availableTime (machineObjs ?t m) \<le> 2147483647"
    using avm int32_range by (cases "m' = m") simp_all
  have rdy': "allPrevOpsCompleted ?t (opObjs ?t a) (opsOf ?t j)"
    using allPrevOpsCompleted_evolves[OF ev rdy] by (simp add: oo)
  have jr': "jobReadyTime ?t (opObjs ?t a) (opsOf ?t j) = jobReadyTime ?s (opObjs ?s a) (opsOf ?s j)"
    using jobReadyTime_evolves[OF ev rdy] by (simp add: oo)
  have aj': "a \<in> set (opsOf ?t j)" using aj by (simp add: oo)
  have uniq': "\<forall>i \<in> set (jobs p). a \<in> set (opsOf ?t i) \<longrightarrow> i = j" using uniq by (simp add: oo)
  have mach': "(case getMachine p (Operation.machineId (opObjs ?t a)) of None \<Rightarrow> False
                | Some m \<Rightarrow> availableTime (machineObjs ?t m) \<le> 2147483647)"
    unfolding stat m option.case by (rule av')
  have jrle': "jobReadyTime ?t (opObjs ?t a) (opsOf ?t j) \<le> 2147483647" unfolding jr' by (rule jr)
  have d': "- 2147483648 \<le> processingTime (opObjs ?t a) \<and> processingTime (opObjs ?t a) \<le> 0 \<or>
            2147483647 < jobReadyTime ?t (opObjs ?t a) (opsOf ?t j) + processingTime (opObjs ?t a) \<and>
            processingTime (opObjs ?t a) \<le> 2147483648"
    unfolding jr' stat by (rule d)
  show ?thesis unfolding t stuck_def
    by (intro conjI j aj' uniq' un' mach' rdy' jrle' d')
qed

lemma fifoVisit_flag_kept: "snd st \<Longrightarrow> snd (fifoVisit p k b st)"
  by (cases rule: fifoVisit_cases[of p k b st]) auto

lemma fifoVisit_stuck_flag:
  assumes "stuck p j a (fst st)"
  shows "snd (fifoVisit p j a st)"
  using assms
  by (cases st) (auto simp: fifoVisit_def stuck_def opsOf_def Let_def split: option.splits)

lemma fifoJob_stuck:
  assumes "stuck p j a (fst st)" and k: "k \<in> set (jobs p)"
  shows "stuck p j a (fst (fifoJob p k st))"
proof -
  have "stuck p j a (fst (fifoJob p k st)) \<and> evolves (fst st) (fst (fifoJob p k st))"
  proof (rule fifoJob_invariant[where I="stuck p j a"])
    fix b and u :: "Store \<times> bool"
    assume h: "b \<in> set (opsOf (fst st) k)" "evolves (fst st) (fst u)" "stuck p j a (fst u)"
    have "b \<in> set (opsOf (fst u) k)" using h(1) evolves_opsOf[OF h(2)] by simp
    then show "stuck p j a (fst (fifoVisit p k b u))" by (rule fifoVisit_stuck[OF h(3) k])
  qed (use assms in simp_all)
  then show ?thesis by simp
qed

lemma fifoJob_flag_kept: "snd st \<Longrightarrow> snd (fifoJob p k st)"
  unfolding fifoJob_def
  by (rule fold_invariant[where I="\<lambda>st. snd st"]) (auto intro: fifoVisit_flag_kept)

lemma fifoRound_stuck:
  assumes "stuck p j a s"
  shows "stuck p j a (fst (fifoRound p s)) \<and> snd (fifoRound p s)"
proof
  show "stuck p j a (fst (fifoRound p s))" unfolding fifoRound_def
    by (rule fold_invariant[where I="\<lambda>st. stuck p j a (fst st)"]) (use assms fifoJob_stuck in auto)
  show "snd (fifoRound p s)" unfolding fifoRound_def
  proof (rule fold_reach[where I="\<lambda>st. stuck p j a (fst st)" and x=j])
    show "j \<in> set (jobs p)" using assms by (simp add: stuck_def)
    show "stuck p j a (fst (s, False))" using assms by simp
  next
    fix k and st :: "Store \<times> bool" assume "k \<in> set (jobs p)" "stuck p j a (fst st)"
    then show "stuck p j a (fst (fifoJob p k st))" using fifoJob_stuck by blast
  next
    fix k and st :: "Store \<times> bool" assume "snd st"
    then show "snd (fifoJob p k st)" by (rule fifoJob_flag_kept)
  next
    fix st :: "Store \<times> bool" assume h: "stuck p j a (fst st)"
    then have mem: "a \<in> set (operations (jobObjs (fst st) j))" and j: "j \<in> set (jobs p)"
      by (simp_all add: stuck_def opsOf_def)
    show "snd (fifoJob p j st)" unfolding fifoJob_def
    proof (rule fold_reach[where I="\<lambda>u. stuck p j a (fst u) \<and> evolves (fst st) (fst u)" and x=a])
      show "a \<in> set (operations (jobObjs (fst st) j))" by (rule mem)
      show "stuck p j a (fst st) \<and> evolves (fst st) (fst st)" using h by simp
    next
      fix b and u :: "Store \<times> bool"
      assume b: "b \<in> set (operations (jobObjs (fst st) j))"
        and u: "stuck p j a (fst u) \<and> evolves (fst st) (fst u)"
      have "b \<in> set (opsOf (fst u) j)" using b u evolves_opsOf[of "fst st" "fst u" j] by (simp add: opsOf_def)
      then have "stuck p j a (fst (fifoVisit p j b u))" using fifoVisit_stuck[OF _ j] u by blast
      then show "stuck p j a (fst (fifoVisit p j b u)) \<and> evolves (fst st) (fst (fifoVisit p j b u))"
        using u evolves_trans[OF _ fifoVisit_evolves] by blast
    next
      fix u :: "Store \<times> bool" assume "stuck p j a (fst u) \<and> evolves (fst st) (fst u)"
      then show "snd (fifoVisit p j a u)" using fifoVisit_stuck_flag by blast
    next
      fix b and u :: "Store \<times> bool" assume "snd u"
      then show "snd (fifoVisit p j b u)" by (rule fifoVisit_flag_kept)
    qed
  qed
qed

lemma fifoLoop_stuck:
  assumes "stuck p j a (fst st)" "fst (snd st)" "snd (snd st) \<le> 1000"
  shows "stuck p j a (fst (fifoLoop p st)) \<and> snd (snd (fifoLoop p st)) = 1000"
  using assms
proof (induction p st rule: fifoLoop.induct)
  case (1 p s f i)
  show ?case
  proof (cases "f \<and> i < 1000")
    case True
    have r: "stuck p j a (fst (fifoRound p s))" "snd (fifoRound p s)"
      using fifoRound_stuck[of p j a s] 1(2) by simp_all
    have "stuck p j a (fst (fifoLoop p (fst (fifoRound p s), snd (fifoRound p s), i + 1))) \<and>
          snd (snd (fifoLoop p (fst (fifoRound p s), snd (fifoRound p s), i + 1))) = 1000"
      using 1(1)[OF True] r True by simp
    then show ?thesis using True by (subst fifoLoop.simps, subst (2) fifoLoop.simps) simp
  next
    case False
    then have "i = 1000" using 1(3,4) by simp
    then show ?thesis using 1(2) False by (subst fifoLoop.simps, subst (2) fifoLoop.simps) auto
  qed
qed

lemma scheduleFIFO_stuck_later:
  assumes "stuck p j a (fst (fifoRound p (initialStore p s)))"
  shows "\<not> isScheduled (opObjs (scheduleFIFO p s) a) \<and>
         cerr (scheduleFIFO p s) = cerr s @ [''Warning: Scheduling may not have completed properly'']"
proof -
  let ?s0 = "initialStore p s"
  let ?r = "fifoRound p ?s0"
  have flag: "snd ?r"
  proof (rule ccontr)
    assume "\<not> snd ?r"
    then have "fst ?r = ?s0" using fifoRound_flag[of p ?s0] by simp
    then have "stuck p j a ?s0" using assms by simp
    then show False using fifoRound_stuck \<open>\<not> snd ?r\<close> by blast
  qed
  have step: "fifoLoop p (?s0, True, 0) = fifoLoop p (fst ?r, snd ?r, 1)"
    by (subst fifoLoop.simps) simp
  obtain t f i where r: "fifoLoop p (?s0, True, 0) = (t, f, i)"
    by (cases "fifoLoop p (?s0, True, 0)") auto
  have "stuck p j a t \<and> i = 1000"
    using fifoLoop_stuck[of p j a "(fst ?r, snd ?r, 1)"] assms flag r step by simp
  moreover have "cerr t = cerr s"
    using fifoLoop_evolves[of ?s0 p True 0] initialStore_sameShape[of s p] r
    by (simp add: evolves_def sameShape_def)
  ultimately show ?thesis
    unfolding scheduleFIFO_def initialStore_def[symmetric] r by (simp add: stuck_def)
qed

lemma scheduleFIFO_stuck:
  assumes "stuck p j a (initialStore p s)"
  shows "\<not> isScheduled (opObjs (scheduleFIFO p s) a) \<and>
         cerr (scheduleFIFO p s) = cerr s @ [''Warning: Scheduling may not have completed properly'']"
  using scheduleFIFO_stuck_later[of p j a s] fifoRound_stuck[OF assms] by blast

lemma zeroDuration_stuck:
  "stuck zeroDurationProblem 0 0 (initialStore zeroDurationProblem (withNewResult zeroDurationStore))"
  by code_simp

lemma zeroDuration_run:
  "fst (solve sortf FIFO (Some zeroDurationProblem) zeroDurationStore) = Inr 0 \<and>
   \<not> isScheduled (opObjs (snd (solve sortf FIFO (Some zeroDurationProblem) zeroDurationStore)) 0) \<and>
   cerr (snd (solve sortf FIFO (Some zeroDurationProblem) zeroDurationStore)) =
     [''Warning: Scheduling may not have completed properly'']"
proof -
  have rc: "resultCount zeroDurationStore = 0" "cerr zeroDurationStore = []" by code_simp+
  show ?thesis
    using scheduleFIFO_stuck[OF zeroDuration_stuck]
    by (simp add: solve_Some[OF schedule_known(1)] calculateMetrics_fields rc)
qed

lemma wrapOneJob_stuck:
  "stuck wrapOneJobProblem 0 1
     (fst (fifoRound wrapOneJobProblem
        (initialStore wrapOneJobProblem (withNewResult wrapOneJobStore))))"
  by code_simp

lemma wrapOneJob_run:
  "fst (solve sortf FIFO (Some wrapOneJobProblem) wrapOneJobStore) = Inr 0 \<and>
   \<not> isScheduled (opObjs (snd (solve sortf FIFO (Some wrapOneJobProblem) wrapOneJobStore)) 1)"
proof -
  have rc: "resultCount wrapOneJobStore = 0" by code_simp
  show ?thesis
    using scheduleFIFO_stuck_later[OF wrapOneJob_stuck]
    by (simp add: solve_Some[OF schedule_known(1)] calculateMetrics_fields rc)
qed

lemma schedule_cerr:
  assumes "schedule sortf algorithm p s = Inr s'"
  shows "cerr s' = cerr s \<or>
         cerr s' = cerr s @ [''Warning: Scheduling may not have completed properly'']"
proof -
  have pl: "\<And>c. cerr (fst (priorityLoop sortf c p (initialStore p s, True, 0))) = cerr s"
    using priorityLoop_evolves[of "initialStore p s" sortf _ p True 0]
      initialStore_sameShape[of s p]
    by (simp add: evolves_def sameShape_def)
  have fl: "cerr (fst (fifoLoop p (initialStore p s, True, 0))) = cerr s"
    using fifoLoop_evolves[of "initialStore p s" p True 0] initialStore_sameShape[of s p]
    by (simp add: evolves_def sameShape_def)
  from assms show ?thesis
  proof (cases rule: schedule_cases)
    case FIFO
    obtain t f i where r: "fifoLoop p (initialStore p s, True, 0) = (t, f, i)"
      by (cases "fifoLoop p (initialStore p s, True, 0)") auto
    show ?thesis using FIFO fl unfolding scheduleFIFO_def initialStore_def[symmetric] r
      by simp
  next
    case SPT
    then show ?thesis using pl[of sptCompare]
      by (simp add: scheduleSPT_def scheduleWithPriority_def initialStore_def)
  next
    case LPT
    then show ?thesis using pl[of lptCompare]
      by (simp add: scheduleLPT_def scheduleWithPriority_def initialStore_def)
  qed
qed

lemma solve_cerr:
  "cerr (snd (solve sortf algorithm q s)) = cerr s \<or>
   cerr (snd (solve sortf algorithm q s)) =
     cerr s @ [''Warning: Scheduling may not have completed properly'']"
proof (cases q)
  case None then show ?thesis by (simp add: solve_None)
next
  case (Some p)
  show ?thesis
  proof (cases "schedule sortf algorithm p (withNewResult s)")
    case (Inl e)
    then show ?thesis using Some by (simp add: solve_error)
  next
    case (Inr s2)
    then show ?thesis using Some schedule_cerr[OF Inr]
      by (simp add: solve_Some[OF Inr] calculateMetrics_fields)
  qed
qed

lemma scheduleOperation_startsNonNegative:
  assumes "startsNonNegative p s" "0 \<le> st"
  shows "startsNonNegative p (scheduleOperation m a st s)"
  using assms by (auto simp: startsNonNegative_def opsOf_def setScheduled_def)

lemma fifoVisit_startsNonNegative:
  assumes "startsNonNegative p (fst st)"
  shows "startsNonNegative p (fst (fifoVisit p j a st))"
proof (cases rule: fifoVisit_cases[of p j a st])
  case skip then show ?thesis using assms by simp
next
  case (commit m)
  have "0 \<le> jobReadyTime (fst st) (opObjs (fst st) a) (opsOf (fst st) j)"
    by (rule jobReadyTime_nonneg)
  then show ?thesis unfolding commit(4) fst_conv
    using assms by (intro scheduleOperation_startsNonNegative) auto
qed

lemma priorityVisit_startsNonNegative:
  assumes "startsNonNegative p (fst st)"
  shows "startsNonNegative p (fst (priorityVisit p a st))"
proof (cases rule: priorityVisit_cases[of p a st])
  case skip then show ?thesis using assms by simp
next
  case (commit m)
  have "0 \<le> (case getJob p (Operation.jobId (opObjs (fst st) a)) of None \<Rightarrow> 0
              | Some j \<Rightarrow> jobReadyTime (fst st) (opObjs (fst st) a) (opsOf (fst st) j))"
    by (simp add: jobReadyTime_nonneg split: option.split)
  then show ?thesis unfolding commit(3) fst_conv
    using assms by (intro scheduleOperation_startsNonNegative) auto
qed

lemma initialStore_startsNonNegative: "startsNonNegative p (initialStore p s)"
proof -
  have "\<And>j a. j \<in> set (jobs p) \<Longrightarrow> a \<in> set (opsOf (initialStore p s) j) \<Longrightarrow>
          startTime (opObjs (initialStore p s) a) = 0"
  proof -
    fix j a assume j: "j \<in> set (jobs p)" and a: "a \<in> set (opsOf (initialStore p s) j)"
    have "a \<in> set (opsOf (resetMachines p s) j)"
      using a sameShape_opsOf[OF initialStore_sameShape[of s p]]
        sameShape_opsOf[OF resetMachines_sameShape[of s p]] by simp
    from clearOperations_cleared[OF j this]
    show "startTime (opObjs (initialStore p s) a) = 0" by (simp add: initialStore_def cleared_def)
  qed
  then show ?thesis by (simp add: startsNonNegative_def)
qed

lemma startsNonNegative_cerr [simp]:
  "startsNonNegative p (s\<lparr>cerr := c\<rparr>) = startsNonNegative p s"
  by (simp add: startsNonNegative_def opsOf_def)

lemma schedule_startsNonNegative:
  assumes "schedule sortf algorithm p s = Inr s'"
  shows "startsNonNegative p s'"
proof -
  let ?s0 = "initialStore p s"
  have fr: "\<And>t. startsNonNegative p t \<Longrightarrow> startsNonNegative p (fst (fifoRound p t))"
    using fifoRound_invariant[where I="startsNonNegative p" and p=p] fifoVisit_startsNonNegative
    by blast
  have pr: "\<And>c t. startsNonNegative p t \<Longrightarrow> startsNonNegative p (fst (priorityRound sortf c p t))"
    unfolding priorityRound_def
    by (rule fold_invariant[where I="\<lambda>st. startsNonNegative p (fst st)"])
       (auto intro: priorityVisit_startsNonNegative)
  have f: "startsNonNegative p (fst (fifoLoop p (?s0, True, 0)))"
    by (rule fifoLoop_invariant[where I="startsNonNegative p"])
       (use fr initialStore_startsNonNegative in auto)
  have q: "\<And>c. startsNonNegative p (fst (priorityLoop sortf c p (?s0, True, 0)))"
    by (rule priorityLoop_invariant[where I="startsNonNegative p"])
       (use pr initialStore_startsNonNegative in auto)
  from assms show ?thesis
  proof (cases rule: schedule_cases)
    case FIFO
    then show ?thesis using f scheduleFIFO_eq[of p s] by auto
  next
    case SPT
    then show ?thesis using q[of sptCompare]
      by (simp add: scheduleSPT_def scheduleWithPriority_def initialStore_def)
  next
    case LPT
    then show ?thesis using q[of lptCompare]
      by (simp add: scheduleLPT_def scheduleWithPriority_def initialStore_def)
  qed
qed

lemma startsNonNegative_nonNegative:
  assumes "startsNonNegative p s"
  shows "nonNegative (scheduledEndTimes s (allOps s p))"
  using assms unfolding startsNonNegative_def nonNegative_def scheduledEndTimes_def allOps_def
  by (fastforce simp: isScheduled_def)

text \<open>On every result that \<open>solve\<close> returns, scheduled operations end after time 0, and
  the metrics are plain maxima of end times.\<close>

lemma solve_metrics:
  assumes "solve sortf algorithm (Some p) s = (Inr r, s')"
  shows "nonNegative (scheduledEndTimes s' (allOps s' p)) \<and>
         problem (resultObjs s' r) = p \<and>
         makespan (resultObjs s' r) = maxOr0 (scheduledEndTimes s' (allOps s' p)) \<and>
         totalCompletionTime (resultObjs s' r) =
           int32 (sum_list (map (\<lambda>j. maxOr0 (scheduledEndTimes s' (opsOf s' j))) (jobs p)))"
proof -
  from assms obtain s2 where run: "schedule sortf algorithm p (withNewResult s) = Inr s2"
    and r: "r = resultCount s"
    and s'0: "s' = calculateMetrics r
        (s2\<lparr>resultObjs :=
              (resultObjs s2)(resultCount s := (resultObjs s2 (resultCount s))\<lparr>problem := p\<rparr>)\<rparr>)"
    by (rule solve_Inr)
  define s3 where "s3 = s2\<lparr>resultObjs := (resultObjs s2)
      (resultCount s := (resultObjs s2 (resultCount s))\<lparr>problem := p\<rparr>)\<rparr>"
  have s': "s' = calculateMetrics r s3" using s'0 by (simp add: s3_def)
  have pr: "problem (resultObjs s3 r) = p" by (simp add: r s3_def)
  have "startsNonNegative p s2" by (rule schedule_startsNonNegative[OF run])
  then have sn: "startsNonNegative p s3"
    by (simp add: startsNonNegative_def opsOf_def s3_def)
  have nn: "nonNegative (scheduledEndTimes s3 (allOps s3 p))"
    by (rule startsNonNegative_nonNegative[OF sn])
  have se: "\<And>as. scheduledEndTimes s' as = scheduledEndTimes s3 as"
    unfolding s' by (simp add: scheduledEndTimes_def calculateMetrics_fields)
  have oo: "opsOf s' = opsOf s3" unfolding s' by (rule opsOf_calculateMetrics)
  have ao: "allOps s' p = allOps s3 p" by (simp add: allOps_def oo)
  have mk: "makespan (resultObjs s' r) = maxWith0 (scheduledEndTimes s3 (allOps s3 p))"
    unfolding s' calculateMetrics_fields pr by (rule makespan_eq)
  have tt: "totalCompletionTime (resultObjs s' r) =
      int32 (sum_list (map (\<lambda>j. maxWith0 (scheduledEndTimes s3 (opsOf s3 j))) (jobs p)))"
    unfolding s' calculateMetrics_fields pr by (rule total_eq)
  have "map (\<lambda>j. maxWith0 (scheduledEndTimes s3 (opsOf s3 j))) (jobs p) =
        map (\<lambda>j. maxOr0 (scheduledEndTimes s3 (opsOf s3 j))) (jobs p)"
  proof (rule map_cong[OF refl])
    fix j assume "j \<in> set (jobs p)"
    then have "\<forall>e \<in> set (scheduledEndTimes s3 (opsOf s3 j)). 0 \<le> e"
      using nn by (auto simp: nonNegative_def scheduledEndTimes_def allOps_def)
    then show "maxWith0 (scheduledEndTimes s3 (opsOf s3 j)) =
               maxOr0 (scheduledEndTimes s3 (opsOf s3 j))"
      by (rule maxWith0_maxOr0)
  qed
  then have "int32 (sum_list (map (\<lambda>j. maxWith0 (scheduledEndTimes s3 (opsOf s3 j))) (jobs p))) =
        int32 (sum_list (map (\<lambda>j. maxOr0 (scheduledEndTimes s3 (opsOf s3 j))) (jobs p)))"
    by (rule arg_cong)
  with tt have tt': "totalCompletionTime (resultObjs s' r) =
        int32 (sum_list (map (\<lambda>j. maxOr0 (scheduledEndTimes s3 (opsOf s3 j))) (jobs p)))"
    by (rule trans)
  have "maxWith0 (scheduledEndTimes s3 (allOps s3 p)) = maxOr0 (scheduledEndTimes s3 (allOps s3 p))"
    using nn by (intro maxWith0_maxOr0) (simp add: nonNegative_def)
  with mk have mk': "makespan (resultObjs s' r) = maxOr0 (scheduledEndTimes s3 (allOps s3 p))"
    by (rule trans)
  have "problem (resultObjs s' r) = p" unfolding s' calculateMetrics_fields by (rule pr)
  then show ?thesis unfolding se oo ao using nn mk' tt' by blast
qed

lemma schedule_boundedInv:
  assumes "std_sort sortf" "durationsPositive p s" "totalWork p s \<le> 2147483647"
    and "schedule sortf algorithm p s = Inr s'"
  shows "boundedInv p s'"
proof -
  let ?s0 = "initialStore p s"
  have i0: "boundedInv p ?s0" by (rule initialStore_boundedInv[OF assms(2,3)])
  have f: "boundedInv p (fst (fifoLoop p (?s0, True, 0)))"
  proof (rule fifoLoop_invariant[where I="boundedInv p"])
    show "boundedInv p (fst (?s0, True, 0::int))" using i0 by simp
  next
    fix t assume "boundedInv p t"
    then show "boundedInv p (fst (fifoRound p t))" by (rule fifoRound_boundedInv)
  qed
  have q: "\<And>c. comparatorOK c \<Longrightarrow> boundedInv p (fst (priorityLoop sortf c p (?s0, True, 0)))"
  proof -
    fix c assume c: "comparatorOK c"
    show "boundedInv p (fst (priorityLoop sortf c p (?s0, True, 0)))"
    proof (rule priorityLoop_invariant[where I="boundedInv p"])
      show "boundedInv p (fst (?s0, True, 0::int))" using i0 by simp
    next
      fix t assume "boundedInv p t"
      then show "boundedInv p (fst (priorityRound sortf c p t))"
        by (rule priorityRound_boundedInv[OF assms(1) c])
    qed
  qed
  from assms(4) show ?thesis
  proof (cases rule: schedule_cases)
    case FIFO
    then show ?thesis using f scheduleFIFO_eq[of p s] by auto
  next
    case SPT
    then show ?thesis using q[OF sptCompare_OK]
      by (simp add: scheduleSPT_def scheduleWithPriority_def initialStore_def)
  next
    case LPT
    then show ?thesis using q[OF lptCompare_OK]
      by (simp add: scheduleLPT_def scheduleWithPriority_def initialStore_def)
  qed
qed

text \<open>With positive durations, every time the pass writes lies between 0 and the sum of
  the durations of the problem's operations. The additions of the pass are
  \<open>startTime + getDuration()\<close>, at most that sum, and \<open>iteration++\<close>, at most 1000; so on a
  problem whose durations sum to a value of type \<open>int\<close> no addition of the pass overflows,
  and the unbounded integers of the model are the \<open>int\<close> values of the code.\<close>

lemma schedule_times_bounded:
  assumes "std_sort sortf" "durationsPositive p s" "totalWork p s \<le> 2147483647"
    and "schedule sortf algorithm p s = Inr s'"
  shows "totalWork p s' = totalWork p s \<and>
         (\<forall>a \<in> set (allOps s' p). 0 \<le> startTime (opObjs s' a) \<and>
                                   endTime (opObjs s' a) \<le> totalWork p s) \<and>
         (\<forall>m \<in> set (machines p). availableTime (machineObjs s' m) \<le> totalWork p s)"
proof -
  have jo: "jobObjs s' = jobObjs s" and st: "\<And>a. sameStatic (opObjs s a) (opObjs s' a)"
    using schedule_frame[OF assms(4)] by blast+
  have oo: "opsOf s' = opsOf s" by (rule ext) (simp add: opsOf_def jo)
  have pt: "\<And>a. processingTime (opObjs s' a) = processingTime (opObjs s a)"
    using st by (simp add: sameStatic_def)
  have tw: "totalWork p s' = totalWork p s"
    by (simp add: totalWork_def allOps_def oo pt)
  have bi: "boundedInv p s'" by (rule schedule_boundedInv[OF assms])
  then have le: "scheduledWork p s' \<le> totalWork p s"
    using scheduledWork_le_totalWork[of p s'] tw by (simp add: boundedInv_def)
  have sn: "startsNonNegative p s'" by (rule schedule_startsNonNegative[OF assms(4)])
  have a: "\<forall>a \<in> set (allOps s' p). 0 \<le> startTime (opObjs s' a) \<and>
                                   endTime (opObjs s' a) \<le> totalWork p s"
  proof
    fix a assume a: "a \<in> set (allOps s' p)"
    then have "endTime (opObjs s' a) \<le> scheduledWork p s'" using bi by (simp add: boundedInv_def)
    moreover have "0 \<le> startTime (opObjs s' a)"
      using a sn unfolding startsNonNegative_def allOps_iff by blast
    ultimately show "0 \<le> startTime (opObjs s' a) \<and> endTime (opObjs s' a) \<le> totalWork p s"
      using le by simp
  qed
  have m: "\<forall>m \<in> set (machines p). availableTime (machineObjs s' m) \<le> totalWork p s"
  proof
    fix m assume "m \<in> set (machines p)"
    then have "availableTime (machineObjs s' m) \<le> scheduledWork p s'"
      using bi by (simp add: boundedInv_def)
    then show "availableTime (machineObjs s' m) \<le> totalWork p s" using le by simp
  qed
  show ?thesis using tw a m by blast
qed

lemma maxWith0_bounds:
  assumes "0 \<le> w" "\<forall>e \<in> set es. e \<le> w"
  shows "0 \<le> maxWith0 es \<and> maxWith0 es \<le> w"
  using assms by (simp add: maxWith0_def)

lemma sum_list_bounds:
  fixes f :: "'a \<Rightarrow> int"
  assumes "\<forall>x \<in> set xs. 0 \<le> f x \<and> f x \<le> w"
  shows "0 \<le> sum_list (map f xs) \<and> sum_list (map f xs) \<le> int (length xs) * w"
  using assms
proof (induction xs)
  case Nil then show ?case by simp
next
  case (Cons x xs)
  then have "0 \<le> sum_list (map f xs) \<and> sum_list (map f xs) \<le> int (length xs) * w" by simp
  moreover have "0 \<le> f x \<and> f x \<le> w" using Cons.prems by simp
  ultimately show ?case by (simp add: algebra_simps)
qed

text \<open>The sums of \<open>calculateMetrics\<close> on a result of \<open>solve\<close>: \<open>makespan\<close> is at most the
  sum of the durations, and \<open>totalCompletionTime\<close> at most that sum times the number of
  jobs.\<close>

lemma solve_metrics_bounded:
  assumes "std_sort sortf" "durationsPositive p s" "totalWork p s \<le> 2147483647"
    and "solve sortf algorithm (Some p) s = (Inr r, s')"
  shows "0 \<le> makespan (resultObjs s' r) \<and> makespan (resultObjs s' r) \<le> totalWork p s \<and>
         (int (length (jobs p)) * totalWork p s \<le> 2147483647 \<longrightarrow>
            0 \<le> totalCompletionTime (resultObjs s' r) \<and>
            totalCompletionTime (resultObjs s' r) \<le> int (length (jobs p)) * totalWork p s \<and>
            totalCompletionTime (resultObjs s' r) =
              sum_list (map (\<lambda>j. maxOr0 (scheduledEndTimes s' (opsOf s' j))) (jobs p)))"
proof -
  from assms(4) obtain s2 where run: "schedule sortf algorithm p (withNewResult s) = Inr s2"
    and r: "r = resultCount s"
    and s'0: "s' = calculateMetrics r
        (s2\<lparr>resultObjs :=
              (resultObjs s2)(resultCount s := (resultObjs s2 (resultCount s))\<lparr>problem := p\<rparr>)\<rparr>)"
    by (rule solve_Inr)
  define s3 where "s3 = s2\<lparr>resultObjs := (resultObjs s2)
      (resultCount s := (resultObjs s2 (resultCount s))\<lparr>problem := p\<rparr>)\<rparr>"
  have s': "s' = calculateMetrics r s3" using s'0 by (simp add: s3_def)
  have dp1: "durationsPositive p (withNewResult s)" using assms(2) by simp
  have tw1: "totalWork p (withNewResult s) \<le> 2147483647" using assms(3) by simp
  have b2: "\<forall>a \<in> set (allOps s2 p). endTime (opObjs s2 a) \<le> totalWork p s"
    using schedule_times_bounded[OF assms(1) dp1 tw1 run] by simp
  have o3: "opObjs s3 = opObjs s2" by (simp add: s3_def)
  have j3: "opsOf s3 = opsOf s2" by (rule ext) (simp add: opsOf_def s3_def)
  have a3: "allOps s3 p = allOps s2 p" by (simp add: allOps_def j3)
  have w0: "0 \<le> totalWork p s"
    unfolding totalWork_def
  proof (rule sum_nonneg)
    fix a assume "a \<in> set (allOps s p)"
    then have "0 < processingTime (opObjs s a)"
      using assms(2) by (auto simp: durationsPositive_def allOps_iff)
    then show "0 \<le> processingTime (opObjs s a)" by simp
  qed
  have all: "\<forall>e \<in> set (scheduledEndTimes s3 (allOps s3 p)). e \<le> totalWork p s"
    using b2 unfolding a3 o3 scheduledEndTimes_def by auto
  have job: "\<forall>j \<in> set (jobs p). 0 \<le> maxWith0 (scheduledEndTimes s3 (opsOf s3 j)) \<and>
                 maxWith0 (scheduledEndTimes s3 (opsOf s3 j)) \<le> totalWork p s"
  proof
    fix j assume j: "j \<in> set (jobs p)"
    have "\<forall>e \<in> set (scheduledEndTimes s3 (opsOf s3 j)). e \<le> totalWork p s"
      using b2 j unfolding j3 o3 scheduledEndTimes_def by (auto simp: allOps_iff)
    then show "0 \<le> maxWith0 (scheduledEndTimes s3 (opsOf s3 j)) \<and>
               maxWith0 (scheduledEndTimes s3 (opsOf s3 j)) \<le> totalWork p s"
      by (rule maxWith0_bounds[OF w0])
  qed
  note sm = solve_metrics[OF assms(4)]
  have se: "\<And>as. scheduledEndTimes s' as = scheduledEndTimes s3 as"
    unfolding s' by (simp add: scheduledEndTimes_def calculateMetrics_fields)
  have oo: "opsOf s' = opsOf s3" unfolding s' by (rule opsOf_calculateMetrics)
  have pr: "problem (resultObjs s3 r) = p" by (simp add: r s3_def)
  have mk: "makespan (resultObjs s' r) = maxWith0 (scheduledEndTimes s3 (allOps s3 p))"
    unfolding s' calculateMetrics_fields pr by (rule makespan_eq)
  have tt: "totalCompletionTime (resultObjs s' r) =
      int32 (sum_list (map (\<lambda>j. maxWith0 (scheduledEndTimes s3 (opsOf s3 j))) (jobs p)))"
    unfolding s' calculateMetrics_fields pr by (rule total_eq)
  note sb = sum_list_bounds[OF job]
  have ao: "allOps s' p = allOps s3 p" by (simp add: allOps_def oo)
  have nn: "nonNegative (scheduledEndTimes s3 (allOps s3 p))"
    using sm unfolding se ao by blast
  have mo: "sum_list (map (\<lambda>j. maxOr0 (scheduledEndTimes s' (opsOf s' j))) (jobs p)) =
            sum_list (map (\<lambda>j. maxWith0 (scheduledEndTimes s3 (opsOf s3 j))) (jobs p))"
  proof (rule arg_cong[where f=sum_list], rule map_cong[OF refl])
    fix j assume "j \<in> set (jobs p)"
    then have "\<forall>e \<in> set (scheduledEndTimes s3 (opsOf s3 j)). 0 \<le> e"
      using nn by (auto simp: nonNegative_def scheduledEndTimes_def allOps_def)
    then show "maxOr0 (scheduledEndTimes s' (opsOf s' j)) = maxWith0 (scheduledEndTimes s3 (opsOf s3 j))"
      unfolding se oo by (rule maxWith0_maxOr0[symmetric])
  qed
  have "int (length (jobs p)) * totalWork p s \<le> 2147483647 \<longrightarrow>
            0 \<le> totalCompletionTime (resultObjs s' r) \<and>
            totalCompletionTime (resultObjs s' r) \<le> int (length (jobs p)) * totalWork p s \<and>
            totalCompletionTime (resultObjs s' r) =
              sum_list (map (\<lambda>j. maxOr0 (scheduledEndTimes s' (opsOf s' j))) (jobs p))"
  proof
    assume h: "int (length (jobs p)) * totalWork p s \<le> 2147483647"
    have "int32 (sum_list (map (\<lambda>j. maxWith0 (scheduledEndTimes s3 (opsOf s3 j))) (jobs p))) =
          sum_list (map (\<lambda>j. maxWith0 (scheduledEndTimes s3 (opsOf s3 j))) (jobs p))"
      using sb h by (intro int32_id) linarith+
    then show "0 \<le> totalCompletionTime (resultObjs s' r) \<and>
            totalCompletionTime (resultObjs s' r) \<le> int (length (jobs p)) * totalWork p s \<and>
            totalCompletionTime (resultObjs s' r) =
              sum_list (map (\<lambda>j. maxOr0 (scheduledEndTimes s' (opsOf s' j))) (jobs p))"
      unfolding tt mo using sb by simp
  qed
  then show ?thesis unfolding mk using maxWith0_bounds[OF w0 all] by blast
qed
section \<open>The claims\<close>

text \<open>
  In every theorem below \<open>sortf\<close> stands for \<open>std::sort\<close>: any function that keeps the
  standard's promise \<open>std_sort\<close>. The witnesses instantiate it with a concrete one.
\<close>


text \<open>
  Where the code keeps the precedence order: under FIFO on every problem in which no
  \<open>Operation\<close> object is held by two jobs, and under SPT and LPT when moreover every
  operation carries as \<open>jobId\<close> the index of the job that holds it (then the job that
  \<open>getJob\<close> finds is the holding job).
\<close>

lemma precedence_kept:
  assumes "std_sort sortf" "opsNotShared p s" "algorithm \<noteq> FIFO \<longrightarrow> jobIdsConsistent p s"
    and "schedule sortf algorithm p s = Inr s'"
    and "j \<in> set (jobs p)" "a \<in> set (opsOf s' j)" "b \<in> set (opsOf s' j)"
    and "operationId (opObjs s' a) < operationId (opObjs s' b)"
    and "isScheduled (opObjs s' a)" "isScheduled (opObjs s' b)"
  shows "endTime (opObjs s' a) \<le> startTime (opObjs s' b)"
proof -
  have "precedenceInv p s'" by (rule schedule_precedenceInv[OF assms(1-4)])
  then show ?thesis using assms(5-10) unfolding precedenceInv_def by blast
qed

text \<open>
  An \<open>Operation\<close> object held by two jobs is scheduled with the first job that has it
  ready, under every rule: here job 0 gets operation 1 scheduled at 0 before job 1, which
  holds it after operation 0, has scheduled operation 0, which ends at 5.
\<close>

lemma precedence_needs_unshared_operations:
  "\<not> opsNotShared mismatchProblem sharedOperationStore \<and>
   1 \<in> set (jobs mismatchProblem) \<and>
   0 \<in> set (opsOf sharedOperationAfterFIFO 1) \<and> 1 \<in> set (opsOf sharedOperationAfterFIFO 1) \<and>
   operationId (opObjs sharedOperationAfterFIFO 0) < operationId (opObjs sharedOperationAfterFIFO 1) \<and>
   isScheduled (opObjs sharedOperationAfterFIFO 0) \<and> isScheduled (opObjs sharedOperationAfterFIFO 1) \<and>
   endTime (opObjs sharedOperationAfterFIFO 0) = 5 \<and>
   startTime (opObjs sharedOperationAfterFIFO 1) = 0"
  by code_simp

text \<open>
  \<^bold>\<open>C2\<close> (machine exclusivity, as amended). For every problem whose operations all have a
  strictly positive \<open>processingTime\<close>, the sum of these (each \<open>Operation\<close> object counted
  once) being at most 2147483647, and every rule: after the schedule pass the list
  \<open>scheduledOperations\<close> of every machine of the problem is in non-decreasing order of start
  time, every operation of the list ends no later than every later one starts (so each
  starts at or after the end of the one before it), and the machine's \<open>availableTime\<close> is
  the end time of the last operation of the list, 0 for the empty list.
\<close>

theorem C2_machine_exclusivity:
  assumes "std_sort sortf" "durationsPositive p s" "totalWork p s \<le> 2147483647"
    and "m \<in> set (machines p)"
    and "schedule sortf algorithm p s = Inr s'" and "l = scheduledOperations (machineObjs s' m)"
  shows "sorted (map (\<lambda>a. startTime (opObjs s' a)) l) \<and>
         (\<forall>i k. i < k \<and> k < length l \<longrightarrow>
            endTime (opObjs s' (l ! i)) \<le> startTime (opObjs s' (l ! k))) \<and>
         availableTime (machineObjs s' m) = (if l = [] then 0 else endTime (opObjs s' (last l)))"
proof -
  have "machineInv p s'" by (rule schedule_machineInv[OF assms(1,2,3,5)])
  then have srt: "sorted_wrt (\<lambda>a b. endTime (opObjs s' a) \<le> startTime (opObjs s' b)) l"
    and sch: "\<forall>a \<in> set l. isScheduled (opObjs s' a)"
    and av: "availableTime (machineObjs s' m) = (if l = [] then 0 else endTime (opObjs s' (last l)))"
    using assms(4) unfolding machineInv_def Let_def assms(6) by blast+
  have "sorted_wrt (\<lambda>a b. startTime (opObjs s' a) \<le> startTime (opObjs s' b)) l"
  proof (rule sorted_wrt_mono_rel[OF _ srt])
    fix a b assume "a \<in> set l" "b \<in> set l" "endTime (opObjs s' a) \<le> startTime (opObjs s' b)"
    then show "startTime (opObjs s' a) \<le> startTime (opObjs s' b)"
      using sch by (fastforce simp: isScheduled_def)
  qed
  then have "sorted (map (\<lambda>a. startTime (opObjs s' a)) l)" by (simp add: sorted_map)
  moreover have "\<forall>i k. i < k \<and> k < length l \<longrightarrow>
      endTime (opObjs s' (l ! i)) \<le> startTime (opObjs s' (l ! k))"
    using srt by (auto simp: sorted_wrt_iff_nth_less)
  ultimately show ?thesis using av by blast
qed

text \<open>The theorem at the two jobs of durations 10 and 2 on one machine, under FIFO: the
  machine's list is operation 0 then operation 1.\<close>

theorem C2_witness:
  "std_sort insertionSort \<and> durationsPositive twoJobsProblem twoJobsStore \<and>
   totalWork twoJobsProblem twoJobsStore \<le> 2147483647 \<and>
   0 \<in> set (machines twoJobsProblem) \<and>
   schedule insertionSort FIFO twoJobsProblem twoJobsStore = Inr twoJobsAfterFIFO \<and>
   scheduledOperations (machineObjs twoJobsAfterFIFO 0) = [0, 1] \<and>
   sorted (map (\<lambda>a. startTime (opObjs twoJobsAfterFIFO a)) [0, 1]) \<and>
   endTime (opObjs twoJobsAfterFIFO 0) \<le> startTime (opObjs twoJobsAfterFIFO 1) \<and>
   availableTime (machineObjs twoJobsAfterFIFO 0) = endTime (opObjs twoJobsAfterFIFO 1)"
proof -
  have dp: "durationsPositive twoJobsProblem twoJobsStore" by code_simp
  have tw: "totalWork twoJobsProblem twoJobsStore \<le> 2147483647" by code_simp
  have m: "0 \<in> set (machines twoJobsProblem)" by code_simp
  have run: "schedule insertionSort FIFO twoJobsProblem twoJobsStore = Inr twoJobsAfterFIFO"
    by (simp add: twoJobsAfterFIFO_def)
  have l: "[0, 1] = scheduledOperations (machineObjs twoJobsAfterFIFO 0)" by code_simp
  show ?thesis
    using insertionSort_std dp tw m run l[symmetric]
      C2_machine_exclusivity[OF insertionSort_std dp tw m run l]
    by (auto dest: spec[where x=0])
qed

text \<open>
  The claim as stated, for every problem with positive durations, fails on two
  single-operation jobs of durations 2147483647 and 1 on one machine, under FIFO. The
  first round gives operation 0 the times 0 to 2147483647 and commits operation 1 at
  2147483647; its end 2147483647 + 1 wraps around to -2147483648, so the operation does not
  satisfy \<open>isScheduled\<close> and the machine's \<open>availableTime\<close> is negative. The second round
  commits operation 1 again, from 0 to 1. The machine's list is operation 0, operation 1,
  operation 1, and operation 1 starts at 0, before operation 0 ends.
\<close>

theorem C2_counterexample:
  "durationsPositive twoJobsProblem wrapTwoJobsStore \<and>
   0 \<in> set (machines twoJobsProblem) \<and>
   schedule insertionSort FIFO twoJobsProblem wrapTwoJobsStore = Inr wrapTwoJobsAfterFIFO \<and>
   scheduledOperations (machineObjs wrapTwoJobsAfterFIFO 0) = [0, 1, 1] \<and>
   startTime (opObjs wrapTwoJobsAfterFIFO 0) = 0 \<and>
   endTime (opObjs wrapTwoJobsAfterFIFO 0) = 2147483647 \<and>
   startTime (opObjs wrapTwoJobsAfterFIFO 1) = 0 \<and>
   endTime (opObjs wrapTwoJobsAfterFIFO 1) = 1 \<and>
   \<not> endTime (opObjs wrapTwoJobsAfterFIFO ([0, 1, 1] ! 0)) \<le>
       startTime (opObjs wrapTwoJobsAfterFIFO ([0, 1, 1] ! 1))"
proof -
  have "durationsPositive twoJobsProblem wrapTwoJobsStore \<and>
   0 \<in> set (machines twoJobsProblem) \<and>
   scheduledOperations (machineObjs wrapTwoJobsAfterFIFO 0) = [0, 1, 1] \<and>
   startTime (opObjs wrapTwoJobsAfterFIFO 0) = 0 \<and>
   endTime (opObjs wrapTwoJobsAfterFIFO 0) = 2147483647 \<and>
   startTime (opObjs wrapTwoJobsAfterFIFO 1) = 0 \<and>
   endTime (opObjs wrapTwoJobsAfterFIFO 1) = 1 \<and>
   \<not> endTime (opObjs wrapTwoJobsAfterFIFO ([0, 1, 1] ! 0)) \<le>
       startTime (opObjs wrapTwoJobsAfterFIFO ([0, 1, 1] ! 1))"
    by code_simp
  then show ?thesis by (simp add: wrapTwoJobsAfterFIFO_def)
qed

text \<open>
  \<^bold>\<open>C3\<close> (the result after later mutation, as amended). After \<open>solve\<close> has returned the
  result at address \<open>r\<close>, a later \<open>solve\<close> (with any rule, on the same or any other problem,
  or on the null pointer) and any direct write to operations or machines leave unchanged
  what the result object itself stores: \<open>makespan\<close>, \<open>totalCompletionTime\<close>,
  \<open>avgFlowTime\<close>, the two counters and the two vectors of job and machine pointers. A later
  \<open>solve\<close> also leaves every job's list of operations unchanged. The \<open>Job\<close>, \<open>Machine\<close>
  and \<open>Operation\<close> objects behind those pointers are the original's own (the copy copies
  the vectors of shared pointers, not the objects): the start and end times and the machine
  schedules seen through the result are not protected.
\<close>

theorem C3_later_solve_frame:
  assumes "solve sortf algorithm (Some p) s = (Inr r, s1)"
  shows "resultObjs (snd (solve sortf' algorithm' q s1)) r = resultObjs s1 r \<and>
         jobObjs (snd (solve sortf' algorithm' q s1)) = jobObjs s1 \<and>
         resultObjs (s1\<lparr>opObjs := ops, machineObjs := ms\<rparr>) r = resultObjs s1 r"
proof -
  from assms obtain s2 where run: "schedule sortf algorithm p (withNewResult s) = Inr s2"
    and r: "r = resultCount s"
    and s1: "s1 = calculateMetrics r
        (s2\<lparr>resultObjs :=
              (resultObjs s2)(resultCount s := (resultObjs s2 (resultCount s))\<lparr>problem := p\<rparr>)\<rparr>)"
    by (rule solve_Inr)
  have "resultCount s2 = Suc (resultCount s)" using schedule_frame[OF run] by simp
  then have "r < resultCount s1" unfolding s1 r by (simp add: calculateMetrics_fields)
  then show ?thesis using solve_frame[of sortf' algorithm' q s1] by simp
qed

text \<open>The theorem at the two jobs: the result of the SPT run keeps its fields through a
  later LPT run on the same problem.\<close>

theorem C3_witness:
  "solve insertionSort SPT (Some twoJobsProblem) twoJobsStore = (Inr 0, twoJobsAfterSPT) \<and>
   resultObjs twoJobsAfterSPTthenLPT 0 = resultObjs twoJobsAfterSPT 0 \<and>
   jobObjs twoJobsAfterSPTthenLPT = jobObjs twoJobsAfterSPT"
proof -
  have h: "solve insertionSort SPT (Some twoJobsProblem) twoJobsStore = (Inr 0, twoJobsAfterSPT)"
    unfolding twoJobsAfterSPT_def
    by (simp add: solve_Some[OF schedule_known(2)] twoJobsStore_def emptyStore_def)
  show ?thesis
    using h C3_later_solve_frame[OF h, of insertionSort LPT "Some twoJobsProblem"]
    by (simp add: twoJobsAfterSPTthenLPT_def)
qed

text \<open>
  The claim as stated fails when the two jobs of durations 10 and 2 are solved with SPT and
  then, the same problem again, with LPT. Seen through the result of the first call (at
  address 0), the operation of job 0 ran from 2 to 12 and the machine's list was operation
  1, operation 0; after the second call the same reading gives 0 to 10 and the list
  operation 0, operation 1.
\<close>

theorem C3_counterexample:
  "fst (solve insertionSort SPT (Some twoJobsProblem) twoJobsStore) = Inr 0 \<and>
   startTime (resultOperation twoJobsAfterSPT 0 0 0) = 2 \<and>
   endTime (resultOperation twoJobsAfterSPT 0 0 0) = 12 \<and>
   scheduledOperations (resultMachine twoJobsAfterSPT 0 0) = [1, 0] \<and>
   startTime (resultOperation twoJobsAfterSPTthenLPT 0 0 0) = 0 \<and>
   endTime (resultOperation twoJobsAfterSPTthenLPT 0 0 0) = 10 \<and>
   scheduledOperations (resultMachine twoJobsAfterSPTthenLPT 0 0) = [0, 1]"
  by code_simp

text \<open>
  \<^bold>\<open>C5\<close> (errors of \<open>solve\<close>, as amended). \<open>solve\<close> signals an error if and only if the
  problem pointer is null or the solver's algorithm is none of FIFO, SPT and LPT. On the
  null pointer it returns the error "Problem instance is null" and leaves the store as it
  was. On a problem with an algorithm that is none of the three it returns the error
  "Unknown algorithm", before any scheduling, and leaves the store as it was. In every other
  case it returns the address of a new \<open>ScheduleResult\<close>, whatever the rounds did: all that
  a run adds to \<open>cerr\<close> is, at most, the one warning line that \<open>scheduleFIFO\<close> writes when
  its round counter has reached 1000.
\<close>

theorem C5_solve_errors:
  "solve sortf algorithm None s = (Inl (runtime_error ''Problem instance is null''), s) \<and>
   (algorithm \<in> {FIFO, SPT, LPT} \<longrightarrow>
      fst (solve sortf algorithm (Some p) s) = Inr (resultCount s) \<and>
      (cerr (snd (solve sortf algorithm (Some p) s)) = cerr s \<or>
       cerr (snd (solve sortf algorithm (Some p) s)) =
         cerr s @ [''Warning: Scheduling may not have completed properly''])) \<and>
   (algorithm \<notin> {FIFO, SPT, LPT} \<longrightarrow>
      solve sortf algorithm (Some p) s = (Inl (runtime_error ''Unknown algorithm''), s)) \<and>
   (isl (fst (solve sortf algorithm q s)) \<longleftrightarrow> q = None \<or> algorithm \<notin> {FIFO, SPT, LPT})"
proof -
  have known: "algorithm \<in> {FIFO, SPT, LPT} \<Longrightarrow>
      fst (solve sortf algorithm (Some p') s) = Inr (resultCount s)" for p'
    by (auto simp: solve_Some[OF schedule_known(1)] solve_Some[OF schedule_known(2)]
          solve_Some[OF schedule_known(3)])
  have unknown: "algorithm \<notin> {FIFO, SPT, LPT} \<Longrightarrow>
      solve sortf algorithm (Some p') s = (Inl (runtime_error ''Unknown algorithm''), s)" for p'
    by (simp add: solve_error[OF schedule_unknown])
  have "isl (fst (solve sortf algorithm q s)) \<longleftrightarrow> q = None \<or> algorithm \<notin> {FIFO, SPT, LPT}"
  proof (cases q)
    case None then show ?thesis by (simp add: solve_None)
  next
    case (Some p')
    show ?thesis
    proof (cases "algorithm \<in> {FIFO, SPT, LPT}")
      case True then show ?thesis using known[OF True, of p'] Some by simp
    next
      case False then show ?thesis using unknown[OF False, of p'] Some by simp
    qed
  qed
  then show ?thesis
    using solve_cerr[of sortf algorithm "Some p" s] known[of p] unknown[of p]
    by (simp add: solve_None)
qed

text \<open>The theorem at a problem on which the round limit is reached: its only operation has
  duration 0, so every FIFO round commits it again and it never satisfies \<open>isScheduled\<close>.
  \<open>solve\<close> returns a result all the same, and the warning is the only line on \<open>cerr\<close>.\<close>

theorem C5_witness:
  "FIFO \<in> {FIFO, SPT, LPT} \<and>
   solve insertionSort FIFO None zeroDurationStore =
     (Inl (runtime_error ''Problem instance is null''), zeroDurationStore) \<and>
   fst (solve insertionSort FIFO (Some zeroDurationProblem) zeroDurationStore) = Inr 0 \<and>
   \<not> isScheduled
       (opObjs (snd (solve insertionSort FIFO (Some zeroDurationProblem) zeroDurationStore)) 0) \<and>
   cerr (snd (solve insertionSort FIFO (Some zeroDurationProblem) zeroDurationStore)) =
     [''Warning: Scheduling may not have completed properly'']"
proof -
  have rc: "resultCount zeroDurationStore = 0" by code_simp
  show ?thesis
    using zeroDuration_run[of insertionSort] rc
      C5_solve_errors[of insertionSort FIFO zeroDurationStore zeroDurationProblem None]
    by simp
qed

text \<open>
  The claim as stated (an error only for the null pointer) fails for a solver whose
  algorithm is \<open>static_cast<SchedulingAlgorithm>(3)\<close>: on the two jobs of durations 10 and 2,
  a problem that is not null, \<open>solve\<close> throws "Unknown algorithm".
\<close>

theorem C5_counterexample:
  "Some twoJobsProblem \<noteq> None \<and>
   solve insertionSort (SchedulingAlgorithm 3) (Some twoJobsProblem) twoJobsStore =
     (Inl (runtime_error ''Unknown algorithm''), twoJobsStore) \<and>
   isl (fst (solve insertionSort (SchedulingAlgorithm 3) (Some twoJobsProblem) twoJobsStore))"
  by (simp add: solve_def schedule_def FIFO_def SPT_def LPT_def)

text \<open>
  \<^bold>\<open>C6\<close> (makespan, as amended). After \<open>calculateMetrics\<close> has run on a result,
  \<open>makespan\<close> is the maximum of 0 and the end times of all operations of the result's
  problem that satisfy \<open>isScheduled\<close>. So it is 0 when no operation is scheduled, and it is
  the maximum end time over the scheduled operations whenever none of them ends before
  time 0.
\<close>

theorem C6_makespan:
  assumes "s' = calculateMetrics r s"
    and "es = scheduledEndTimes s' (allOps s' (problem (resultObjs s' r)))"
  shows "makespan (resultObjs s' r) = maxWith0 es \<and>
         (nonNegative es \<longrightarrow> makespan (resultObjs s' r) = maxOr0 es)"
proof -
  have "es = scheduledEndTimes s (allOps s (problem (resultObjs s r)))"
    unfolding assms
    by (simp add: calculateMetrics_fields scheduledEndTimes_def allOps_def opsOf_calculateMetrics)
  then have "makespan (resultObjs s' r) = maxWith0 es"
    unfolding assms(1) by (simp add: calculateMetrics_fields makespan_eq)
  then show ?thesis using maxWith0_maxOr0 by (auto simp: nonNegative_def)
qed

text \<open>The theorem at the result of the SPT run on the two jobs, whose end times are 12
  and 2.\<close>

theorem C6_witness:
  "nonNegative (scheduledEndTimes (calculateMetrics 0 twoJobsAfterSPT)
       (allOps (calculateMetrics 0 twoJobsAfterSPT)
          (problem (resultObjs (calculateMetrics 0 twoJobsAfterSPT) 0)))) \<and>
   makespan (resultObjs (calculateMetrics 0 twoJobsAfterSPT) 0) =
     maxOr0 (scheduledEndTimes (calculateMetrics 0 twoJobsAfterSPT)
       (allOps (calculateMetrics 0 twoJobsAfterSPT)
          (problem (resultObjs (calculateMetrics 0 twoJobsAfterSPT) 0))))"
proof -
  have h: "nonNegative (scheduledEndTimes (calculateMetrics 0 twoJobsAfterSPT)
       (allOps (calculateMetrics 0 twoJobsAfterSPT)
          (problem (resultObjs (calculateMetrics 0 twoJobsAfterSPT) 0))))"
    by code_simp
  show ?thesis
    using h C6_makespan[OF refl refl, of 0 twoJobsAfterSPT] by blast
qed

text \<open>
  The claim as stated fails on a result whose only operation runs from -5 to -2: the
  operation satisfies \<open>isScheduled\<close>, the maximum end time over the scheduled operations is
  -2, and \<open>calculateMetrics\<close> sets \<open>makespan\<close> to 0.
\<close>

theorem C6_counterexample:
  "isScheduled (opObjs negativeStore 0) \<and>
   scheduledEndTimes (calculateMetrics 0 negativeStore)
     (allOps (calculateMetrics 0 negativeStore)
        (problem (resultObjs (calculateMetrics 0 negativeStore) 0))) = [- 2] \<and>
   maxOr0 [- 2] = - 2 \<and>
   makespan (resultObjs (calculateMetrics 0 negativeStore) 0) = 0 \<and>
   makespan (resultObjs (calculateMetrics 0 negativeStore) 0) \<noteq>
     maxOr0 (scheduledEndTimes (calculateMetrics 0 negativeStore)
       (allOps (calculateMetrics 0 negativeStore)
          (problem (resultObjs (calculateMetrics 0 negativeStore) 0))))"
  by code_simp

text \<open>
  \<^bold>\<open>C7\<close> (total completion time and average flow time, as amended). After
  \<open>calculateMetrics\<close> has run, \<open>totalCompletionTime\<close> is the sum over the jobs of the
  maximum of 0 and the end times of the job's scheduled operations (0 for a job with none
  scheduled, and the job's maximum end time whenever no scheduled operation ends before
  time 0), computed in \<open>int\<close>: it is that sum whenever the sum is at most 2147483647, and the
  sum wrapped around otherwise. \<open>avgFlowTime\<close> is 0 when there is no job, and otherwise the
  \<open>double\<close> nearest to the quotient of \<open>totalCompletionTime\<close> by the number of jobs (the
  number of jobs itself taken as a \<open>double\<close>, which changes nothing below 2 to the power 53).
\<close>

theorem C7_totalCompletionTime_avgFlowTime:
  assumes "s' = calculateMetrics r s" and "js = jobs (problem (resultObjs s' r))"
    and "S = sum_list (map (\<lambda>j. maxWith0 (scheduledEndTimes s' (opsOf s' j))) js)"
  shows "totalCompletionTime (resultObjs s' r) = int32 S \<and>
         (S \<le> 2147483647 \<longrightarrow> totalCompletionTime (resultObjs s' r) = S) \<and>
         (nonNegative (scheduledEndTimes s' (allOps s' (problem (resultObjs s' r)))) \<longrightarrow>
            S = sum_list (map (\<lambda>j. maxOr0 (scheduledEndTimes s' (opsOf s' j))) js)) \<and>
         avgFlowTime (resultObjs s' r) =
           (if js = [] then 0
            else toDouble (real_of_int (totalCompletionTime (resultObjs s' r)) /
                           toDouble (real (length js)))) \<and>
         (length js < 2 ^ 53 \<longrightarrow>
            avgFlowTime (resultObjs s' r) =
              (if js = [] then 0
               else toDouble (real_of_int (totalCompletionTime (resultObjs s' r)) /
                              real (length js))))"
proof -
  have js: "js = jobs (problem (resultObjs s r))"
    unfolding assms by (simp add: calculateMetrics_fields)
  have se: "\<And>as. scheduledEndTimes s' as = scheduledEndTimes s as"
    unfolding assms(1) by (simp add: scheduledEndTimes_def calculateMetrics_fields)
  have oo: "opsOf s' = opsOf s" unfolding assms(1) by (rule opsOf_calculateMetrics)
  have ao: "allOps s' (problem (resultObjs s' r)) = concat (map (opsOf s) js)"
    by (simp add: allOps_def js assms(1) calculateMetrics_fields opsOf_calculateMetrics)
  have S: "S = sum_list (map (\<lambda>j. maxWith0 (scheduledEndTimes s (opsOf s j))) js)"
    unfolding assms(3) se oo ..
  have t: "totalCompletionTime (resultObjs s' r) = int32 S"
    unfolding assms(1) S js by (simp add: calculateMetrics_fields total_eq)
  have "0 \<le> S" unfolding S by (rule sum_list_nonneg) (auto simp: maxWith0_def)
  then have b: "S \<le> 2147483647 \<longrightarrow> totalCompletionTime (resultObjs s' r) = S"
    unfolding t by (simp add: int32_id)
  have a: "avgFlowTime (resultObjs s' r) =
        (if js = [] then 0
         else toDouble (real_of_int (totalCompletionTime (resultObjs s' r)) /
                        toDouble (real (length js))))"
    unfolding assms(1) js by (simp add: calculateMetrics_fields)
  have a': "length js < 2 ^ 53 \<longrightarrow>
        avgFlowTime (resultObjs s' r) =
        (if js = [] then 0
         else toDouble (real_of_int (totalCompletionTime (resultObjs s' r)) / real (length js)))"
    unfolding a by (simp add: toDouble_nat)
  have m: "nonNegative (scheduledEndTimes s (concat (map (opsOf s) js))) \<longrightarrow>
        S = sum_list (map (\<lambda>j. maxOr0 (scheduledEndTimes s (opsOf s j))) js)"
  proof
    assume h: "nonNegative (scheduledEndTimes s (concat (map (opsOf s) js)))"
    have "map (\<lambda>j. maxWith0 (scheduledEndTimes s (opsOf s j))) js =
          map (\<lambda>j. maxOr0 (scheduledEndTimes s (opsOf s j))) js"
    proof (rule map_cong[OF refl])
      fix j assume "j \<in> set js"
      then have "\<forall>e \<in> set (scheduledEndTimes s (opsOf s j)). 0 \<le> e"
        using h by (auto simp: nonNegative_def scheduledEndTimes_def)
      then show "maxWith0 (scheduledEndTimes s (opsOf s j)) = maxOr0 (scheduledEndTimes s (opsOf s j))"
        by (rule maxWith0_maxOr0)
    qed
    then show "S = sum_list (map (\<lambda>j. maxOr0 (scheduledEndTimes s (opsOf s j))) js)"
      unfolding S by (rule arg_cong)
  qed
  show ?thesis unfolding se oo ao using t b a a' m by blast
qed

text \<open>The theorem at the result of the FIFO run on the three jobs of durations 1, 4 and 8
  on three machines: the total is 1 + 4 + 8, and the average is the \<open>double\<close> nearest to
  13 / 3, which is 4878899596318037 / 1125899906842624.\<close>

theorem C7_witness:
  "jobs (problem (resultObjs (calculateMetrics 0 threeJobsAfterFIFO) 0)) = [0, 1, 2] \<and>
   sum_list (map (\<lambda>j. maxWith0 (scheduledEndTimes (calculateMetrics 0 threeJobsAfterFIFO)
                                  (opsOf (calculateMetrics 0 threeJobsAfterFIFO) j))) [0, 1, 2]) = 13 \<and>
   nonNegative (scheduledEndTimes (calculateMetrics 0 threeJobsAfterFIFO)
       (allOps (calculateMetrics 0 threeJobsAfterFIFO)
          (problem (resultObjs (calculateMetrics 0 threeJobsAfterFIFO) 0)))) \<and>
   length [0 :: nat, 1, 2] < 2 ^ 53 \<and>
   totalCompletionTime (resultObjs (calculateMetrics 0 threeJobsAfterFIFO) 0) = 13 \<and>
   sum_list (map (\<lambda>j. maxOr0 (scheduledEndTimes (calculateMetrics 0 threeJobsAfterFIFO)
                                 (opsOf (calculateMetrics 0 threeJobsAfterFIFO) j))) [0, 1, 2]) = 13 \<and>
   avgFlowTime (resultObjs (calculateMetrics 0 threeJobsAfterFIFO) 0) =
     4878899596318037 / 1125899906842624"
proof -
  have n: "jobs (problem (resultObjs (calculateMetrics 0 threeJobsAfterFIFO) 0)) = [0, 1, 2]"
    by code_simp
  have S: "13 = sum_list (map (\<lambda>j. maxWith0 (scheduledEndTimes (calculateMetrics 0 threeJobsAfterFIFO)
                                  (opsOf (calculateMetrics 0 threeJobsAfterFIFO) j))) [0, 1, 2])"
    by code_simp
  have h: "nonNegative (scheduledEndTimes (calculateMetrics 0 threeJobsAfterFIFO)
       (allOps (calculateMetrics 0 threeJobsAfterFIFO)
          (problem (resultObjs (calculateMetrics 0 threeJobsAfterFIFO) 0))))"
    by code_simp
  have d: "toDouble (13 / 3) = 4878899596318037 / 1125899906842624" by code_simp
  have l: "length [0 :: nat, 1, 2] < 2 ^ 53" by simp
  note T = C7_totalCompletionTime_avgFlowTime[OF refl n[symmetric] S]
  have t: "totalCompletionTime (resultObjs (calculateMetrics 0 threeJobsAfterFIFO) 0) = 13"
    using T by simp
  have m: "13 = sum_list (map (\<lambda>j. maxOr0 (scheduledEndTimes (calculateMetrics 0 threeJobsAfterFIFO)
                                 (opsOf (calculateMetrics 0 threeJobsAfterFIFO) j))) [0, 1, 2])"
    using T h by blast
  have "avgFlowTime (resultObjs (calculateMetrics 0 threeJobsAfterFIFO) 0) =
      toDouble (real_of_int (totalCompletionTime (resultObjs (calculateMetrics 0 threeJobsAfterFIFO) 0)) /
                real (length [0 :: nat, 1, 2]))"
    using T[THEN conjunct2, THEN conjunct2, THEN conjunct2, THEN conjunct2, rule_format, OF l]
    by simp
  then have "avgFlowTime (resultObjs (calculateMetrics 0 threeJobsAfterFIFO) 0) = toDouble (13 / 3)"
    unfolding t by simp
  then have av: "avgFlowTime (resultObjs (calculateMetrics 0 threeJobsAfterFIFO) 0) =
      4878899596318037 / 1125899906842624"
    unfolding d .
  show ?thesis by (intro conjI n S[symmetric] h l t m[symmetric] av)
qed

text \<open>
  The claim as stated fails in each of its parts. On the result whose only job has one
  scheduled operation, running from -5 to -2, the claim's sum is -2, and \<open>calculateMetrics\<close>
  sets \<open>totalCompletionTime\<close> to 0. After the FIFO run on two jobs of duration 1500000000
  on two machines, both scheduled from 0 to 1500000000, the sum is 3000000000 and
  \<open>totalCompletionTime\<close> is -1294967296. After the FIFO run on the three jobs of durations
  1, 4 and 8, \<open>totalCompletionTime\<close> is 13 and \<open>avgFlowTime\<close> is not 13 divided by 3.
\<close>

theorem C7_counterexample:
  "jobs (problem (resultObjs (calculateMetrics 0 negativeStore) 0)) = [0] \<and>
   scheduledEndTimes (calculateMetrics 0 negativeStore)
     (opsOf (calculateMetrics 0 negativeStore) 0) = [- 2] \<and>
   sum_list [maxOr0 (scheduledEndTimes (calculateMetrics 0 negativeStore)
                       (opsOf (calculateMetrics 0 negativeStore) 0))] = - 2 \<and>
   totalCompletionTime (resultObjs (calculateMetrics 0 negativeStore) 0) = 0 \<and>
   totalCompletionTime (resultObjs (calculateMetrics 0 negativeStore) 0) \<noteq>
     sum_list [maxOr0 (scheduledEndTimes (calculateMetrics 0 negativeStore)
                         (opsOf (calculateMetrics 0 negativeStore) 0))] \<and>
   jobs (problem (resultObjs (calculateMetrics 0 longJobsAfterFIFO) 0)) = [0, 1] \<and>
   scheduledEndTimes (calculateMetrics 0 longJobsAfterFIFO)
     (opsOf (calculateMetrics 0 longJobsAfterFIFO) 0) = [1500000000] \<and>
   scheduledEndTimes (calculateMetrics 0 longJobsAfterFIFO)
     (opsOf (calculateMetrics 0 longJobsAfterFIFO) 1) = [1500000000] \<and>
   totalCompletionTime (resultObjs (calculateMetrics 0 longJobsAfterFIFO) 0) = - 1294967296 \<and>
   totalCompletionTime (resultObjs (calculateMetrics 0 longJobsAfterFIFO) 0) \<noteq>
     sum_list (map (\<lambda>j. maxOr0 (scheduledEndTimes (calculateMetrics 0 longJobsAfterFIFO)
                                   (opsOf (calculateMetrics 0 longJobsAfterFIFO) j))) [0, 1]) \<and>
   jobs (problem (resultObjs (calculateMetrics 0 threeJobsAfterFIFO) 0)) = [0, 1, 2] \<and>
   totalCompletionTime (resultObjs (calculateMetrics 0 threeJobsAfterFIFO) 0) = 13 \<and>
   avgFlowTime (resultObjs (calculateMetrics 0 threeJobsAfterFIFO) 0) \<noteq>
     real_of_int (totalCompletionTime (resultObjs (calculateMetrics 0 threeJobsAfterFIFO) 0)) /
       real (length [0 :: nat, 1, 2])"
proof -
  have a: "jobs (problem (resultObjs (calculateMetrics 0 negativeStore) 0)) = [0] \<and>
   scheduledEndTimes (calculateMetrics 0 negativeStore)
     (opsOf (calculateMetrics 0 negativeStore) 0) = [- 2] \<and>
   sum_list [maxOr0 (scheduledEndTimes (calculateMetrics 0 negativeStore)
                       (opsOf (calculateMetrics 0 negativeStore) 0))] = - 2 \<and>
   totalCompletionTime (resultObjs (calculateMetrics 0 negativeStore) 0) = 0 \<and>
   totalCompletionTime (resultObjs (calculateMetrics 0 negativeStore) 0) \<noteq>
     sum_list [maxOr0 (scheduledEndTimes (calculateMetrics 0 negativeStore)
                         (opsOf (calculateMetrics 0 negativeStore) 0))]"
    by code_simp
  have b: "jobs (problem (resultObjs (calculateMetrics 0 longJobsAfterFIFO) 0)) = [0, 1] \<and>
   scheduledEndTimes (calculateMetrics 0 longJobsAfterFIFO)
     (opsOf (calculateMetrics 0 longJobsAfterFIFO) 0) = [1500000000] \<and>
   scheduledEndTimes (calculateMetrics 0 longJobsAfterFIFO)
     (opsOf (calculateMetrics 0 longJobsAfterFIFO) 1) = [1500000000] \<and>
   totalCompletionTime (resultObjs (calculateMetrics 0 longJobsAfterFIFO) 0) = - 1294967296 \<and>
   totalCompletionTime (resultObjs (calculateMetrics 0 longJobsAfterFIFO) 0) \<noteq>
     sum_list (map (\<lambda>j. maxOr0 (scheduledEndTimes (calculateMetrics 0 longJobsAfterFIFO)
                                   (opsOf (calculateMetrics 0 longJobsAfterFIFO) j))) [0, 1])"
    by code_simp
  have c: "jobs (problem (resultObjs (calculateMetrics 0 threeJobsAfterFIFO) 0)) = [0, 1, 2] \<and>
   totalCompletionTime (resultObjs (calculateMetrics 0 threeJobsAfterFIFO) 0) = 13"
    by code_simp
  have d: "avgFlowTime (resultObjs (calculateMetrics 0 threeJobsAfterFIFO) 0) =
     4878899596318037 / 1125899906842624"
    by code_simp
  have "avgFlowTime (resultObjs (calculateMetrics 0 threeJobsAfterFIFO) 0) \<noteq>
     real_of_int (totalCompletionTime (resultObjs (calculateMetrics 0 threeJobsAfterFIFO) 0)) /
       real (length [0 :: nat, 1, 2])"
    unfolding d using c by simp
  then show ?thesis using a b c by blast
qed

text \<open>
  \<^bold>\<open>C8\<close> (SPT against LPT). For two single-operation jobs on one machine, job 0 of
  duration 10 and job 1 of duration 2: solving with SPT starts the operation of job 1 at 0
  and the operation of job 0 at 2; solving with LPT starts the operation of job 0 at 0 and
  the operation of job 1 at 10.
\<close>

theorem C8_spt_lpt_scenario:
  assumes "std_sort sortf"
  shows "startTime (opObjs (snd (solve sortf SPT (Some twoJobsProblem) twoJobsStore)) 1) = 0 \<and>
         startTime (opObjs (snd (solve sortf SPT (Some twoJobsProblem) twoJobsStore)) 0) = 2 \<and>
         startTime (opObjs (snd (solve sortf LPT (Some twoJobsProblem) twoJobsStore)) 0) = 0 \<and>
         startTime (opObjs (snd (solve sortf LPT (Some twoJobsProblem) twoJobsStore)) 1) = 10"
proof -
  have d: "distinctDurations twoJobsProblem twoJobsStore" by code_simp
  have "startTime (opObjs (snd (solve insertionSort SPT (Some twoJobsProblem) twoJobsStore)) 1) = 0 \<and>
        startTime (opObjs (snd (solve insertionSort SPT (Some twoJobsProblem) twoJobsStore)) 0) = 2 \<and>
        startTime (opObjs (snd (solve insertionSort LPT (Some twoJobsProblem) twoJobsStore)) 0) = 0 \<and>
        startTime (opObjs (snd (solve insertionSort LPT (Some twoJobsProblem) twoJobsStore)) 1) = 10"
    by code_simp
  then show ?thesis
    unfolding solve_unique[OF assms insertionSort_std d] .
qed

text \<open>The theorem for a sorting function other than the one its proof evaluates.\<close>

theorem C8_witness:
  "std_sort reversingSort \<and>
   startTime (opObjs (snd (solve reversingSort SPT (Some twoJobsProblem) twoJobsStore)) 1) = 0 \<and>
   startTime (opObjs (snd (solve reversingSort SPT (Some twoJobsProblem) twoJobsStore)) 0) = 2 \<and>
   startTime (opObjs (snd (solve reversingSort LPT (Some twoJobsProblem) twoJobsStore)) 0) = 0 \<and>
   startTime (opObjs (snd (solve reversingSort LPT (Some twoJobsProblem) twoJobsStore)) 1) = 10"
  using reversingSort_std C8_spt_lpt_scenario[OF reversingSort_std] by blast

text \<open>
  \<^bold>\<open>C9\<close> (metrics are idempotent). A second call of \<open>calculateMetrics\<close> on a result,
  with nothing changed in between, yields the \<open>makespan\<close>, \<open>totalCompletionTime\<close> and
  \<open>avgFlowTime\<close> of the first call, indeed the very same store; and a call changes neither
  the result's problem nor any operation, job or machine.
\<close>

theorem C9_calculateMetrics_idempotent:
  "makespan (resultObjs (calculateMetrics r (calculateMetrics r s)) r) =
     makespan (resultObjs (calculateMetrics r s) r) \<and>
   totalCompletionTime (resultObjs (calculateMetrics r (calculateMetrics r s)) r) =
     totalCompletionTime (resultObjs (calculateMetrics r s) r) \<and>
   avgFlowTime (resultObjs (calculateMetrics r (calculateMetrics r s)) r) =
     avgFlowTime (resultObjs (calculateMetrics r s) r) \<and>
   calculateMetrics r (calculateMetrics r s) = calculateMetrics r s \<and>
   problem (resultObjs (calculateMetrics r s) r) = problem (resultObjs s r) \<and>
   opObjs (calculateMetrics r s) = opObjs s \<and>
   jobObjs (calculateMetrics r s) = jobObjs s \<and>
   machineObjs (calculateMetrics r s) = machineObjs s"
  by (simp add: calculateMetrics_idem calculateMetrics_fields)

theorem C9_witness:
  "makespan (resultObjs (calculateMetrics 0 (calculateMetrics 0 negativeStore)) 0) =
     makespan (resultObjs (calculateMetrics 0 negativeStore) 0) \<and>
   calculateMetrics 0 (calculateMetrics 0 negativeStore) = calculateMetrics 0 negativeStore \<and>
   opObjs (calculateMetrics 0 negativeStore) = opObjs negativeStore"
  using C9_calculateMetrics_idempotent[of 0 negativeStore] by simp

text \<open>
  \<^bold>\<open>C10\<close> (every operation gets scheduled, as amended). For every non-null problem in
  which each operation's \<open>machineId\<close> refers to an existing machine, every \<open>processingTime\<close>
  is strictly positive, the sum of these (each \<open>Operation\<close> object counted once) is at most
  2147483647, the \<open>operationId\<close>s are distinct within each job and every job has at most 999
  operations, \<open>solve\<close> under FIFO, SPT or LPT returns a result, and in the store it leaves
  every operation of the problem satisfies \<open>isScheduled\<close>. (\<open>solve\<close> is a total function:
  the loops of the model end by their round counters.)
\<close>

theorem C10_all_operations_scheduled:
  assumes "std_sort sortf" "machineIdsValid p s" "durationsPositive p s"
    "totalWork p s \<le> 2147483647"
    "operationIdsDistinct p s" "jobSizesAtMost 999 p s"
    "algorithm \<in> {FIFO, SPT, LPT}"
  shows "\<exists>r s'. solve sortf algorithm (Some p) s = (Inr r, s') \<and> allScheduled p s'"
proof -
  from assms(7) obtain s2 where run: "schedule sortf algorithm p (withNewResult s) = Inr s2"
    by (auto simp: schedule_def)
  have "allScheduled p s2"
    by (rule schedule_allScheduled[OF assms(1) _ _ _ _ run])
       (use assms in \<open>simp_all add: jobSizesAtMost_def\<close>)
  moreover have "jobObjs s2 = jobObjs s"
    using schedule_frame[OF run] by simp
  ultimately have "allScheduled p (snd (solve sortf algorithm (Some p) s))"
    using allScheduled_cong[of "snd (solve sortf algorithm (Some p) s)" s2 p]
      solve_objects[OF run] by simp
  then show ?thesis using solve_Some[OF run] by (metis snd_conv)
qed

text \<open>The theorem at the job of three operations on three machines, under LPT.\<close>

theorem C10_witness:
  "std_sort insertionSort \<and> machineIdsValid oneJobProblem oneJobStore \<and>
   durationsPositive oneJobProblem oneJobStore \<and>
   totalWork oneJobProblem oneJobStore \<le> 2147483647 \<and>
   operationIdsDistinct oneJobProblem oneJobStore \<and>
   jobSizesAtMost 999 oneJobProblem oneJobStore \<and> LPT \<in> {FIFO, SPT, LPT} \<and>
   (\<exists>r s'. solve insertionSort LPT (Some oneJobProblem) oneJobStore = (Inr r, s') \<and>
            allScheduled oneJobProblem s')"
proof -
  have a: "machineIdsValid oneJobProblem oneJobStore" by code_simp
  have b: "durationsPositive oneJobProblem oneJobStore" by code_simp
  have t: "totalWork oneJobProblem oneJobStore \<le> 2147483647" by code_simp
  have c: "operationIdsDistinct oneJobProblem oneJobStore" by code_simp
  have d: "jobSizesAtMost 999 oneJobProblem oneJobStore" by code_simp
  have e: "LPT \<in> {FIFO, SPT, LPT}" by simp
  show ?thesis
    using insertionSort_std a b t c d e
      C10_all_operations_scheduled[OF insertionSort_std a b t c d e]
    by blast
qed

text \<open>
  The claim as stated fails on one job holding operation 0 (duration 2147483647, machine 0)
  and operation 1 (duration 1, machine 1), under FIFO. Every condition of the claim holds.
  Operation 0 runs from 0 to 2147483647; every round commits operation 1 at 2147483647, and
  its end 2147483647 + 1 wraps around to -2147483648, so it never satisfies \<open>isScheduled\<close>,
  not after 1000 rounds either, when \<open>solve\<close> returns its result.
\<close>

theorem C10_counterexample:
  "machineIdsValid wrapOneJobProblem wrapOneJobStore \<and>
   durationsPositive wrapOneJobProblem wrapOneJobStore \<and>
   operationIdsDistinct wrapOneJobProblem wrapOneJobStore \<and>
   jobSizesAtMost 999 wrapOneJobProblem wrapOneJobStore \<and>
   0 \<in> set (jobs wrapOneJobProblem) \<and> 1 \<in> set (opsOf wrapOneJobStore 0) \<and>
   fst (solve insertionSort FIFO (Some wrapOneJobProblem) wrapOneJobStore) = Inr 0 \<and>
   \<not> isScheduled
       (opObjs (snd (solve insertionSort FIFO (Some wrapOneJobProblem) wrapOneJobStore)) 1) \<and>
   \<not> allScheduled wrapOneJobProblem
       (snd (solve insertionSort FIFO (Some wrapOneJobProblem) wrapOneJobStore))"
proof -
  have a: "machineIdsValid wrapOneJobProblem wrapOneJobStore \<and>
   durationsPositive wrapOneJobProblem wrapOneJobStore \<and>
   operationIdsDistinct wrapOneJobProblem wrapOneJobStore \<and>
   jobSizesAtMost 999 wrapOneJobProblem wrapOneJobStore \<and>
   0 \<in> set (jobs wrapOneJobProblem) \<and> 1 \<in> set (opsOf wrapOneJobStore 0)"
    by code_simp
  let ?t = "snd (solve insertionSort FIFO (Some wrapOneJobProblem) wrapOneJobStore)"
  have "opsOf ?t 0 = opsOf wrapOneJobStore 0"
    using solve_frame[of insertionSort FIFO "Some wrapOneJobProblem" wrapOneJobStore]
    by (simp add: opsOf_def)
  then have "\<not> allScheduled wrapOneJobProblem ?t"
    using a wrapOneJob_run[of insertionSort] unfolding allScheduled_def by force
  then show ?thesis using a wrapOneJob_run[of insertionSort] by blast
qed

end
